theory Spec2Isabelle
  imports Complex_Main "HOL-Library.Word"
begin

unbundle bit_operations_syntax

section \<open>The operating system as seen by the addon\<close>

text \<open>
  The addon talks to one descriptor through \<open>read\<close>, \<open>fcntl\<close>, \<open>malloc\<close> and
  \<open>free\<close>. The state below is that descriptor and the process around it:
  \<^item> \<open>stream\<close>: the bytes the descriptor has not delivered yet, in order;
  \<^item> \<open>reads\<close>: what each coming \<open>read\<close> call does, one event per call. A run that
    needs an event when none is left has not returned (the value \<open>None\<close>);
  \<^item> \<open>fcntls\<close>: what each coming \<open>fcntl\<close> call does (\<open>Some e\<close>: it fails with
    \<open>errno = e\<close>); with none left the call succeeds;
  \<^item> \<open>malloc_fails\<close>: \<open>Some e\<close> when \<open>malloc\<close> returns \<open>NULL\<close> with \<open>errno = e\<close>;
  \<^item> \<open>flags\<close>: the file status flags of the descriptor;
  \<^item> \<open>errno\<close>, \<open>strerror\<close>: the C library's error number and its message table;
  \<^item> \<open>trace\<close>: every call made so far, oldest first.
\<close>

type_synonym byte = char

datatype read_event = Fail int | Deliver nat

datatype syscall =
    SysRead nat int
  | SysGetfl int
  | SysSetfl int int
  | SysMalloc nat bool
  | SysFree

record os =
  stream :: "byte list"
  reads :: "read_event list"
  fcntls :: "int option list"
  malloc_fails :: "int option"
  flags :: nat
  errno :: int
  strerror :: "int \<Rightarrow> string"
  trace :: "syscall list"

definition EINTR :: int where "EINTR = 4"
definition EAGAIN :: int where "EAGAIN = 11"
definition O_NONBLOCK :: int where "O_NONBLOCK = 2048"

text \<open>
  \<open>read(fd, buf, len)\<close>: \<open>Fail e\<close> returns -1 with \<open>errno = e\<close>; \<open>Deliver k\<close> hands
  over the next bytes of the stream, at most \<open>k\<close> and at most \<open>len\<close> of them, and
  returns their number (0 at the end of the stream).
\<close>

definition sys_read :: "int \<Rightarrow> nat \<Rightarrow> os \<Rightarrow> (int \<times> byte list \<times> os) option" where
  "sys_read fd len s =
     (case reads s of
        [] \<Rightarrow> None
      | Fail e # es \<Rightarrow>
          Some (- 1, [], s\<lparr>reads := es, errno := e, trace := trace s @ [SysRead len (- 1)]\<rparr>)
      | Deliver k # es \<Rightarrow>
          (let n = min (min k len) (length (stream s))
           in Some (int n, take n (stream s),
                s\<lparr>stream := drop n (stream s), reads := es,
                  trace := trace s @ [SysRead len (int n)]\<rparr>)))"

definition fcntl_GETFL :: "int \<Rightarrow> os \<Rightarrow> int \<times> os" where
  "fcntl_GETFL fd s =
     (case fcntls s of
        Some e # fs \<Rightarrow> (- 1, s\<lparr>fcntls := fs, errno := e, trace := trace s @ [SysGetfl (- 1)]\<rparr>)
      | _ \<Rightarrow> (int (flags s),
               s\<lparr>fcntls := tl (fcntls s), trace := trace s @ [SysGetfl (int (flags s))]\<rparr>))"

definition fcntl_SETFL :: "int \<Rightarrow> int \<Rightarrow> os \<Rightarrow> int \<times> os" where
  "fcntl_SETFL fd opts s =
     (case fcntls s of
        Some e # fs \<Rightarrow>
          (- 1, s\<lparr>fcntls := fs, errno := e, trace := trace s @ [SysSetfl opts (- 1)]\<rparr>)
      | _ \<Rightarrow> (0, s\<lparr>fcntls := tl (fcntls s), flags := nat opts,
                    trace := trace s @ [SysSetfl opts 0]\<rparr>))"

text \<open>\<open>malloc\<close> returns a block of cells that hold nothing yet, or \<open>NULL\<close> (\<open>None\<close>).\<close>

definition sys_malloc :: "nat \<Rightarrow> os \<Rightarrow> byte option list option \<times> os" where
  "sys_malloc n s =
     (case malloc_fails s of
        Some e \<Rightarrow> (None, s\<lparr>errno := e, trace := trace s @ [SysMalloc n False]\<rparr>)
      | None \<Rightarrow> (Some (replicate n None), s\<lparr>trace := trace s @ [SysMalloc n True]\<rparr>))"

definition sys_free :: "os \<Rightarrow> os" where
  "sys_free s = s\<lparr>trace := trace s @ [SysFree]\<rparr>"

text \<open>\<open>snprintf(msg, sizeof(msg), ...)\<close> with \<open>char msg[256]\<close> keeps 255 characters.\<close>

definition snprintf256 :: "string \<Rightarrow> string" where
  "snprintf256 m = take 255 m"

text \<open>The conversion \<open>%lu\<close>: an unsigned number in decimal.\<close>

fun dec :: "nat \<Rightarrow> string" where
  "dec n = (if n < 10 then [''0123456789'' ! n] else dec (n div 10) @ [''0123456789'' ! (n mod 10)])"

declare dec.simps [simp del]

text \<open>\<open>&data[count]\<close> filled with the bytes a \<open>read\<close> call returned.\<close>

definition store_at :: "byte option list \<Rightarrow> nat \<Rightarrow> byte list \<Rightarrow> byte option list" where
  "store_at d count bs = take count d @ map Some bs @ drop (count + length bs) d"

section \<open>The worker (\<open>PosixReadWorker\<close>)\<close>

record worker =
  fd :: int
  fd_was_non_blocking :: bool
  size :: nat
  data :: "byte option list"
  error_prop :: "string option"
  errmsg :: "string option"

text \<open>
  The constructor sets \<open>fd\<close> and \<open>size\<close>; \<open>error_prop\<close> and the base class's message
  start as \<open>NULL\<close>. \<open>fd_was_non_blocking\<close> and \<open>data\<close> are left as they happen to be:
  \<open>u\<close> stands for that boolean, and \<open>data\<close> is assigned before any use.
\<close>

definition PosixReadWorker :: "int \<Rightarrow> nat \<Rightarrow> bool \<Rightarrow> worker" where
  "PosixReadWorker f n u =
     \<lparr>fd = f, fd_was_non_blocking = u, size = n, data = [], error_prop = None, errmsg = None\<rparr>"

definition SetBlocking :: "worker \<Rightarrow> os \<Rightarrow> int \<times> worker \<times> os" where
  "SetBlocking w s =
     (let (opts, s1) = fcntl_GETFL (fd w) s in
      if opts = - 1 then (- 1, w, s1)
      else
        let w1 = w\<lparr>fd_was_non_blocking := (opts AND O_NONBLOCK \<noteq> 0)\<rparr> in
        if fd_was_non_blocking w1 then
          (let (r, s2) = fcntl_SETFL (fd w) (opts AND NOT O_NONBLOCK) s1 in
           if r = - 1 then (- 1, w1, s2) else (0, w1, s2))
        else (0, w1, s1))"

definition UnsetBlocking :: "worker \<Rightarrow> os \<Rightarrow> int \<times> os" where
  "UnsetBlocking w s =
     (if fd_was_non_blocking w then
        (let (opts, s1) = fcntl_GETFL (fd w) s in
         if opts = - 1 then (- 1, s1)
         else
           (let (r, s2) = fcntl_SETFL (fd w) (opts OR O_NONBLOCK) s1 in
            if r = - 1 then (- 1, s2) else (0, s2)))
      else (0, s))"

text \<open>
  Setting an error: \<open>error_prop\<close>, the message built by \<open>snprintf\<close> and stored by
  \<open>SetErrorMessage\<close>.
\<close>

definition set_error :: "string \<Rightarrow> string \<Rightarrow> worker \<Rightarrow> worker" where
  "set_error prop m w = w\<lparr>error_prop := Some prop, errmsg := Some (snprintf256 m)\<rparr>"

text \<open>
  The \<open>do ... while (count < size)\<close> loop of \<open>Execute\<close>. \<open>continue\<close> goes to the
  test of the loop. The result is the worker, \<open>count\<close> and the system after the loop.
\<close>

function read_loop :: "worker \<Rightarrow> nat \<Rightarrow> os \<Rightarrow> (worker \<times> nat \<times> os) option" where
  "read_loop w count s =
     (case sys_read (fd w) (size w - count) s of
        None \<Rightarrow> None
      | Some (n, bs, s1) \<Rightarrow>
          if n = - 1 then
            if errno s1 = EINTR then
              (if count < size w then read_loop w count s1 else Some (w, count, s1))
            else
              Some (set_error ''systemError'' (''read failed: '' @ strerror s1 (errno s1)) w,
                    count, sys_free s1)
          else if n = 0 then
            Some (set_error ''endOfFile''
                    (''reached end of stream (read '' @ dec count @ '' bytes)'') w,
                  count, sys_free s1)
          else
            (let w1 = w\<lparr>data := store_at (data w) count bs\<rparr>; count1 = count + nat n in
             if count1 < size w then read_loop w1 count1 s1 else Some (w1, count1, s1)))"
  by pat_completeness auto

termination read_loop
  by (relation "measure (\<lambda>(w, count, s). length (reads s))")
     (auto simp: sys_read_def Let_def split: list.splits read_event.splits)

declare read_loop.simps [simp del]

definition Execute :: "worker \<Rightarrow> os \<Rightarrow> (worker \<times> os) option" where
  "Execute w s =
     (case sys_malloc (size w) s of
        (None, s1) \<Rightarrow>
          Some (set_error ''systemError'' (''malloc failed: '' @ strerror s1 (errno s1)) w, s1)
      | (Some blk, s1) \<Rightarrow>
          (let w1 = w\<lparr>data := blk\<rparr> in
           case SetBlocking w1 s1 of
             (r, w2, s2) \<Rightarrow>
               if r \<noteq> 0 then
                 Some (set_error ''systemError''
                         (''fnctl failed: '' @ strerror s2 (errno s2)) w2, sys_free s2)
               else
                 (case read_loop w2 0 s2 of
                    None \<Rightarrow> None
                  | Some (w3, count, s3) \<Rightarrow>
                      (case UnsetBlocking w3 s3 of
                         (r', s4) \<Rightarrow>
                           if r' \<noteq> 0 then
                             (if errmsg w3 = None then
                                Some (set_error ''systemError''
                                        (''fnctl failed: '' @ strerror s4 (errno s4)) w3,
                                      sys_free s4)
                              else Some (w3, s4))
                           else Some (w3, s4)))))"

section \<open>JavaScript values\<close>

text \<open>
  What the addon inspects of a JavaScript value: its kind, for an object the name of
  its constructor and its properties. A number is a double: not-a-number, an infinity
  or a finite value.
\<close>

datatype js_number = NaN | PosInf | NegInf | Fin rat

datatype js_value =
    JUndefined
  | JNull
  | JBool bool
  | JNumber js_number
  | JString string
  | JFunction
  | JObject string "(string \<times> js_value) list"
  | JBuffer "byte option list"

datatype js_exception = TypeError string | Error string

fun IsObject :: "js_value \<Rightarrow> bool" where
  "IsObject (JObject c ps) = True"
| "IsObject JFunction = True"
| "IsObject (JBuffer b) = True"
| "IsObject v = False"

fun IsNumber :: "js_value \<Rightarrow> bool" where
  "IsNumber (JNumber x) = True"
| "IsNumber v = False"

fun IsBoolean :: "js_value \<Rightarrow> bool" where
  "IsBoolean (JBool b) = True"
| "IsBoolean v = False"

fun IsFunction :: "js_value \<Rightarrow> bool" where
  "IsFunction JFunction = True"
| "IsFunction v = False"

text \<open>\<open>strcmp(name, GetConstructorName()) == 0\<close>, for the two names the addon asks for.\<close>

fun ConstructorNameIs :: "string \<Rightarrow> js_value \<Rightarrow> bool" where
  "ConstructorNameIs n (JObject c ps) = (c = n)"
| "ConstructorNameIs n v = False"

fun Has :: "js_value \<Rightarrow> string \<Rightarrow> bool" where
  "Has (JObject c ps) k = (map_of ps k \<noteq> None)"
| "Has v k = False"

fun Get :: "js_value \<Rightarrow> string \<Rightarrow> js_value" where
  "Get (JObject c ps) k = (case map_of ps k of Some v \<Rightarrow> v | None \<Rightarrow> JUndefined)"
| "Get v k = JUndefined"

text \<open>
  \<open>Nan::To<int>\<close> is the conversion to a 32-bit integer: not-a-number and the
  infinities give 0, a finite number is cut towards zero and wrapped into
  \<open>-2^31 .. 2^31 - 1\<close>. Both addons convert a value only after \<open>IsNumber\<close> has
  accepted it; for the other values the model gives 1 for \<open>true\<close> and 0 otherwise.
  Likewise \<open>Nan::To<bool>\<close> is applied to booleans only.
\<close>

definition ToInt32 :: "rat \<Rightarrow> int" where
  "ToInt32 x =
     (let t = (if 0 \<le> x then \<lfloor>x\<rfloor> else \<lceil>x\<rceil>); m = t mod 2 ^ 32
      in if 2 ^ 31 \<le> m then m - 2 ^ 32 else m)"

fun To_int :: "js_value \<Rightarrow> int" where
  "To_int (JNumber (Fin x)) = ToInt32 x"
| "To_int (JBool b) = (if b then 1 else 0)"
| "To_int v = 0"

fun To_bool :: "js_value \<Rightarrow> bool" where
  "To_bool (JBool b) = b"
| "To_bool JUndefined = False"
| "To_bool JNull = False"
| "To_bool (JNumber NaN) = False"
| "To_bool (JNumber (Fin x)) = (x \<noteq> 0)"
| "To_bool (JString s) = (s \<noteq> [])"
| "To_bool v = True"

text \<open>\<open>info[i]\<close>: the argument, or \<open>undefined\<close> past the last one.\<close>

definition arg :: "js_value list \<Rightarrow> nat \<Rightarrow> js_value" where
  "arg info i = (if i < length info then info ! i else JUndefined)"

section \<open>The asynchronous addon\<close>

definition LooksLikeASocket :: "js_value \<Rightarrow> bool" where
  "LooksLikeASocket object =
     (if \<not> IsObject object then False
      else if \<not> ConstructorNameIs ''Socket'' object then False
      else True)"

definition SocketIsReadable :: "js_value \<Rightarrow> bool" where
  "SocketIsReadable socket =
     (if \<not> Has socket ''readable'' then False
      else (let v = Get socket ''readable'' in IsBoolean v \<and> To_bool v))"

definition GetFdFromSocket :: "js_value \<Rightarrow> int" where
  "GetFdFromSocket socket =
     (if \<not> Has socket ''_handle'' then - 1
      else
        let handle = Get socket ''_handle'' in
        if \<not> IsObject handle then - 1
        else if \<not> ConstructorNameIs ''TCP'' handle then - 1
        else if \<not> Has handle ''fd'' then - 1
        else
          let v = Get handle ''fd'' in
          if \<not> IsNumber v then - 1
          else
            let fd = To_int v in
            if fd < 0 then - 1 else fd)"

definition ErrorWithProperty :: "string \<Rightarrow> string \<Rightarrow> js_value" where
  "ErrorWithProperty property message =
     JObject ''Error'' [(''message'', JString message), (property, JBool True)]"

text \<open>
  The two ways the worker calls back, as the arguments of the call. The error callback
  runs only when a message was set, and \<open>Execute\<close> sets \<open>error_prop\<close> with every
  message (lemma \<open>Execute_error\<close>).
\<close>

definition HandleOKCallback :: "worker \<Rightarrow> js_value list" where
  "HandleOKCallback w = [JNull, JBuffer (take (size w mod 2 ^ 32) (data w))]"

definition HandleErrorCallback :: "worker \<Rightarrow> js_value list" where
  "HandleErrorCallback w = [ErrorWithProperty (the (error_prop w)) (the (errmsg w))]"

text \<open>
  The library's part (\<open>Nan::AsyncQueueWorker\<close>, outside this repository): run
  \<open>Execute\<close> on a worker thread, then, back on the event loop, call
  \<open>HandleOKCallback\<close> when no error message was set and \<open>HandleErrorCallback\<close>
  otherwise. The result is the list of the calls made to the callback.
\<close>

definition WorkComplete :: "worker \<Rightarrow> js_value list" where
  "WorkComplete w = (if errmsg w = None then HandleOKCallback w else HandleErrorCallback w)"

definition AsyncQueueWorker :: "worker \<Rightarrow> os \<Rightarrow> (js_value list list \<times> os) option" where
  "AsyncQueueWorker w s =
     (case Execute w s of None \<Rightarrow> None | Some (w1, s1) \<Rightarrow> Some ([WorkComplete w1], s1))"

text \<open>
  How a call of the exported function ends: an exception, a return value, or the end
  of the process (\<open>exit\<close>).
\<close>

datatype completion = Threw js_exception | Returned js_value | Exited

text \<open>
  \<open>Read\<close> of the asynchronous addon: the completion of the call, the calls made to
  the callback, and the system afterwards. \<open>u\<close> is what the field
  \<open>fd_was_non_blocking\<close> of the new worker happens to hold.
\<close>

definition Read :: "js_value list \<Rightarrow> bool \<Rightarrow> os \<Rightarrow> (completion \<times> js_value list list \<times> os) option" where
  "Read info u s =
     (if length info \<noteq> 3 then
        Some (Threw (TypeError ''wrong number of arguments''), [], s)
      else if \<not> LooksLikeASocket (arg info 0) then
        Some (Threw (TypeError ''first argument should be a socket''), [], s)
      else if \<not> IsNumber (arg info 1) \<or> To_int (arg info 1) \<le> 0 then
        Some (Threw (TypeError ''second argument should be a positive integer''), [], s)
      else if \<not> IsFunction (arg info 2) then
        Some (Threw (TypeError ''third argument should be a function''), [], s)
      else if \<not> SocketIsReadable (arg info 0) then
        Some (Returned JUndefined,
              [[ErrorWithProperty ''badStream'' ''socket is not readable'']], s)
      else
        let fd = GetFdFromSocket (arg info 0) in
        if fd = - 1 then
          Some (Returned JUndefined,
                [[ErrorWithProperty ''badStream''
                    ''malformed socket object, cannot get file descriptor'']], s)
        else
          (case AsyncQueueWorker (PosixReadWorker fd (nat (To_int (arg info 1))) u) s of
             None \<Rightarrow> None
           | Some (calls, s1) \<Rightarrow> Some (Returned JUndefined, calls, s1)))"

section \<open>The synchronous addon (\<open>src/cpp/posixread.cpp\<close>)\<close>

text \<open>
  \<open>get_fd_from_socket\<close> returns the descriptor or a negative code; with -4 it has
  thrown already, and the exception is the second component.
\<close>

definition get_fd_from_socket :: "js_value \<Rightarrow> int \<times> js_exception option" where
  "get_fd_from_socket object =
     (if \<not> IsObject object then (- 1, None)
      else if \<not> ConstructorNameIs ''Socket'' object then (- 1, None)
      else if \<not> Has object ''readable'' then (- 1, None)
      else
        let v = Get object ''readable'' in
        if \<not> IsBoolean v \<or> \<not> To_bool v then (- 3, None)
        else if \<not> Has object ''_handle'' then (- 4, Some (TypeError ''socket has no handle''))
        else
          let handle = Get object ''_handle'' in
          if \<not> IsObject handle then (- 4, Some (TypeError ''socket has no handle''))
          else if \<not> ConstructorNameIs ''TCP'' handle then
            (- 4, Some (TypeError ''socket has no handle''))
          else if \<not> Has handle ''fd'' then (- 2, None)
          else
            let v = Get handle ''fd'' in
            if \<not> IsNumber v then (- 2, None)
            else
              let fd = To_int v in
              if fd < 0 then (- 2, None) else (fd, None))"

text \<open>
  The loop of the synchronous \<open>Read\<close>: the message of the error it throws if any,
  the buffer, \<open>count\<close> and the system. A thrown error returns from \<open>Read\<close> at once.
\<close>

function cpp_read_loop ::
  "int \<Rightarrow> nat \<Rightarrow> byte option list \<Rightarrow> nat \<Rightarrow> os \<Rightarrow> (string option \<times> byte option list \<times> nat \<times> os) option" where
  "cpp_read_loop f sz d count s =
     (case sys_read f (sz - count) s of
        None \<Rightarrow> None
      | Some (n, bs, s1) \<Rightarrow>
          if n = - 1 then
            if errno s1 = EINTR then
              (if count < sz then cpp_read_loop f sz d count s1 else Some (None, d, count, s1))
            else if errno s1 = EAGAIN then
              (if count < sz then cpp_read_loop f sz d count s1 else Some (None, d, count, s1))
            else
              Some (Some (snprintf256 (''read failed: '' @ strerror s1 (errno s1))), d, count, s1)
          else if n = 0 then
            Some (Some (snprintf256 (''reached end of stream (read '' @ dec count @ '' bytes)'')),
                  d, count, s1)
          else
            (let d1 = store_at d count bs; count1 = count + nat n in
             if count1 < sz then cpp_read_loop f sz d1 count1 s1 else Some (None, d1, count1, s1)))"
  by pat_completeness auto

termination cpp_read_loop
  by (relation "measure (\<lambda>(f, sz, d, count, s). length (reads s))")
     (auto simp: sys_read_def Let_def split: list.splits read_event.splits)

declare cpp_read_loop.simps [simp del]

text \<open>
  The two blocks of the synchronous \<open>Read\<close> around its loop. The first makes the
  descriptor blocking and gives \<open>was_non_blocking\<close> and \<open>opts\<close>, or \<open>None\<close> when it
  ends the process (\<open>exit(EXIT_FAILURE)\<close>). The second sets the flag again from the
  same \<open>opts\<close>, and gives \<open>False\<close> when it ends the process.
\<close>

definition cpp_set_blocking :: "int \<Rightarrow> os \<Rightarrow> (bool \<times> int) option \<times> os" where
  "cpp_set_blocking f s =
     (let (opts, s1) = fcntl_GETFL f s in
      if opts < 0 then (None, s1)
      else if opts AND O_NONBLOCK \<noteq> 0 then
        (let opts1 = opts AND NOT O_NONBLOCK; (r, s2) = fcntl_SETFL f opts1 s1 in
         if r < 0 then (None, s2) else (Some (True, opts1), s2))
      else (Some (False, opts), s1))"

definition cpp_restore :: "int \<Rightarrow> bool \<Rightarrow> int \<Rightarrow> os \<Rightarrow> bool \<times> os" where
  "cpp_restore f was_non_blocking opts s =
     (if was_non_blocking then
        (let (r, s1) = fcntl_SETFL f (opts OR O_NONBLOCK) s in (\<not> r < 0, s1))
      else (True, s))"

definition cpp_Read :: "js_value list \<Rightarrow> os \<Rightarrow> (completion \<times> os) option" where
  "cpp_Read info s =
     (if length info < 2 then Some (Threw (TypeError ''wrong number of arguments''), s)
      else
        case get_fd_from_socket (arg info 0) of
          (fd1, pending) \<Rightarrow>
            if fd1 < 0 then
              (if fd1 = - 1 then Some (Threw (TypeError ''first argument should be a socket''), s)
               else if fd1 = - 2 then Some (Threw (Error ''socket file descriptor is invalid''), s)
               else if fd1 = - 3 then Some (Threw (Error ''socket is not readable''), s)
               else (case pending of
                       Some e \<Rightarrow> Some (Threw e, s)
                     | None \<Rightarrow> Some (Returned JUndefined, s)))
            else if \<not> IsNumber (arg info 1) \<or> To_int (arg info 1) \<le> 0 then
              Some (Threw (TypeError ''second argument should be a positive integer''), s)
            else
              let sz = nat (To_int (arg info 1));
                  buffer = replicate (sz mod 2 ^ 32) None
              in
              case cpp_set_blocking fd1 s of
                (None, s2) \<Rightarrow> Some (Exited, s2)
              | (Some (was_non_blocking, opts), s2) \<Rightarrow>
                  (case cpp_read_loop fd1 sz buffer 0 s2 of
                     None \<Rightarrow> None
                   | Some (Some m, d, count, s3) \<Rightarrow> Some (Threw (Error m), s3)
                   | Some (None, d, count, s3) \<Rightarrow>
                       (case cpp_restore fd1 was_non_blocking opts s3 of
                          (ok, s4) \<Rightarrow>
                            if ok then Some (Returned (JBuffer d), s4) else Some (Exited, s4))))"

section \<open>What the properties speak of\<close>

text \<open>
  The \<open>read\<close> calls of a trace, each with the length asked for and the result.
\<close>

fun read_calls :: "syscall list \<Rightarrow> (nat \<times> int) list" where
  "read_calls [] = []"
| "read_calls (SysRead len n # t) = (len, n) # read_calls t"
| "read_calls (c # t) = read_calls t"

text \<open>
  Every \<open>read\<close> call asks for \<open>N - count\<close> bytes, where \<open>count\<close> is what the calls
  before it returned, and never gets more than it asked for.
\<close>

fun reads_within :: "nat \<Rightarrow> nat \<Rightarrow> (nat \<times> int) list \<Rightarrow> bool" where
  "reads_within N count [] = True"
| "reads_within N count ((len, n) # rs) =
     (count \<le> N \<and> len = N - count \<and> n \<le> int len \<and> reads_within N (count + nat n) rs)"

text \<open>The number of \<open>free\<close> calls of a trace.\<close>

fun frees :: "syscall list \<Rightarrow> nat" where
  "frees [] = 0"
| "frees (SysFree # t) = Suc (frees t)"
| "frees (c # t) = frees t"

text \<open>The number of \<open>F_SETFL\<close> calls of a trace that carry \<open>O_NONBLOCK\<close>.\<close>

fun nonblock_sets :: "syscall list \<Rightarrow> nat" where
  "nonblock_sets [] = 0"
| "nonblock_sets (SysSetfl opts r # t) =
     (if opts AND O_NONBLOCK \<noteq> 0 then 1 else 0) + nonblock_sets t"
| "nonblock_sets (c # t) = nonblock_sets t"

text \<open>The \<open>read\<close> events that are not an interruption (\<open>EINTR\<close>).\<close>

definition answers :: "read_event list \<Rightarrow> nat" where
  "answers evs = length (filter (\<lambda>e. e \<noteq> Fail EINTR) evs)"

text \<open>
  Two states of the system between which nothing was read, freed or changed in the
  stream.
\<close>

definition same_io :: "os \<Rightarrow> os \<Rightarrow> bool" where
  "same_io s s' =
     (stream s' = stream s \<and> reads s' = reads s \<and> strerror s' = strerror s \<and>
      malloc_fails s' = malloc_fails s \<and>
      read_calls (trace s') = read_calls (trace s) \<and> frees (trace s') = frees (trace s))"

text \<open>
  What the callback may be given once a request is over: one error that carries a
  message and exactly one of the three flags, or \<open>null\<close> and a buffer of the size
  asked for.
\<close>

fun IsString :: "js_value \<Rightarrow> bool" where
  "IsString (JString m) = True"
| "IsString v = False"

definition error_flags :: "js_value \<Rightarrow> string list" where
  "error_flags e =
     filter (\<lambda>p. Get e p = JBool True) [''badStream'', ''endOfFile'', ''systemError'']"

definition is_error_outcome :: "js_value \<Rightarrow> bool" where
  "is_error_outcome e =
     (ConstructorNameIs ''Error'' e \<and> IsString (Get e ''message'') \<and> length (error_flags e) = 1)"

fun terminal_outcome :: "nat \<Rightarrow> js_value list \<Rightarrow> bool" where
  "terminal_outcome N [e] = is_error_outcome e"
| "terminal_outcome N [JNull, JBuffer b] = (length b = N)"
| "terminal_outcome N args = False"



section \<open>Examples\<close>

text \<open>
  A connected socket as \<open>net\<close> builds it, and a system whose descriptor is
  non-blocking (\<open>O_RDWR | O_NONBLOCK\<close>) and holds the given bytes.
\<close>

definition tcp_socket :: "int \<Rightarrow> js_value" where
  "tcp_socket f =
     JObject ''Socket''
       [(''readable'', JBool True), (''_handle'', JObject ''TCP'' [(''fd'', JNumber (Fin (of_int f)))])]"

definition os_example :: "string \<Rightarrow> read_event list \<Rightarrow> int option list \<Rightarrow> os" where
  "os_example bytes evs fs =
     \<lparr>stream = bytes, reads = evs, fcntls = fs, malloc_fails = None, flags = 2050, errno = 0,
      strerror = (\<lambda>e. ''errno '' @ dec (nat e)), trace = []\<rparr>"

section \<open>The system calls\<close>

lemma sys_read_result:
  assumes "sys_read f len s = Some (n, bs, s1)"
  shows "(n = - 1 \<and> bs = []) \<or> (n = int (length bs) \<and> length bs \<le> len)"
  using assms by (auto simp: sys_read_def Let_def split: list.splits read_event.splits)

lemma sys_read_stream:
  "sys_read f len s = Some (n, bs, s1) \<Longrightarrow> stream s = bs @ stream s1"
  by (auto simp: sys_read_def Let_def split: list.splits read_event.splits)

lemma sys_read_trace:
  "sys_read f len s = Some (n, bs, s1) \<Longrightarrow> trace s1 = trace s @ [SysRead len n]"
  by (auto simp: sys_read_def Let_def split: list.splits read_event.splits)

lemma sys_read_frame:
  "sys_read f len s = Some (n, bs, s1) \<Longrightarrow>
     flags s1 = flags s \<and> fcntls s1 = fcntls s \<and> strerror s1 = strerror s \<and>
     malloc_fails s1 = malloc_fails s"
  by (auto simp: sys_read_def Let_def split: list.splits read_event.splits)

lemma sys_free_simps [simp]:
  "stream (sys_free s) = stream s" "reads (sys_free s) = reads s"
  "fcntls (sys_free s) = fcntls s" "flags (sys_free s) = flags s"
  "errno (sys_free s) = errno s" "strerror (sys_free s) = strerror s"
  "malloc_fails (sys_free s) = malloc_fails s"
  "trace (sys_free s) = trace s @ [SysFree]"
  by (simp_all add: sys_free_def)

lemma set_error_simps [simp]:
  "fd (set_error p m w) = fd w" "size (set_error p m w) = size w"
  "data (set_error p m w) = data w"
  "fd_was_non_blocking (set_error p m w) = fd_was_non_blocking w"
  "error_prop (set_error p m w) = Some p" "errmsg (set_error p m w) = Some (snprintf256 m)"
  by (simp_all add: set_error_def)

section \<open>The loop of the worker\<close>

lemma read_loop_induct [consumes 1, case_names retry retry_exit fail eof more full]:
  assumes run: "read_loop w count s = Some (w', count', s')"
    and retry: "\<And>w count s s1.
        sys_read (fd w) (size w - count) s = Some (- 1, [], s1) \<Longrightarrow> errno s1 = EINTR \<Longrightarrow>
        count < size w \<Longrightarrow> read_loop w count s1 = Some (w', count', s') \<Longrightarrow>
        P w count s1 \<Longrightarrow> P w count s"
    and retry_exit: "\<And>w count s s1.
        sys_read (fd w) (size w - count) s = Some (- 1, [], s1) \<Longrightarrow> errno s1 = EINTR \<Longrightarrow>
        \<not> count < size w \<Longrightarrow> w' = w \<Longrightarrow> count' = count \<Longrightarrow> s' = s1 \<Longrightarrow> P w count s"
    and fail: "\<And>w count s s1.
        sys_read (fd w) (size w - count) s = Some (- 1, [], s1) \<Longrightarrow> errno s1 \<noteq> EINTR \<Longrightarrow>
        w' = set_error ''systemError'' (''read failed: '' @ strerror s1 (errno s1)) w \<Longrightarrow>
        count' = count \<Longrightarrow> s' = sys_free s1 \<Longrightarrow> P w count s"
    and eof: "\<And>w count s s1.
        sys_read (fd w) (size w - count) s = Some (0, [], s1) \<Longrightarrow>
        w' = set_error ''endOfFile''
               (''reached end of stream (read '' @ dec count @ '' bytes)'') w \<Longrightarrow>
        count' = count \<Longrightarrow> s' = sys_free s1 \<Longrightarrow> P w count s"
    and more: "\<And>w count s bs s1.
        sys_read (fd w) (size w - count) s = Some (int (length bs), bs, s1) \<Longrightarrow> bs \<noteq> [] \<Longrightarrow>
        length bs \<le> size w - count \<Longrightarrow> count + length bs < size w \<Longrightarrow>
        read_loop (w\<lparr>data := store_at (data w) count bs\<rparr>) (count + length bs) s1
          = Some (w', count', s') \<Longrightarrow>
        P (w\<lparr>data := store_at (data w) count bs\<rparr>) (count + length bs) s1 \<Longrightarrow> P w count s"
    and full: "\<And>w count s bs s1.
        sys_read (fd w) (size w - count) s = Some (int (length bs), bs, s1) \<Longrightarrow> bs \<noteq> [] \<Longrightarrow>
        length bs \<le> size w - count \<Longrightarrow> \<not> count + length bs < size w \<Longrightarrow>
        w' = w\<lparr>data := store_at (data w) count bs\<rparr> \<Longrightarrow> count' = count + length bs \<Longrightarrow>
        s' = s1 \<Longrightarrow> P w count s"
  shows "P w count s"
  using run
proof (induction w count s rule: read_loop.induct)
  case (1 w count s)
  from "1.prems" obtain n bs s1 where r: "sys_read (fd w) (size w - count) s = Some (n, bs, s1)"
    by (subst (asm) read_loop.simps) (auto split: option.splits)
  note res = sys_read_result [OF r]
  show ?case
  proof (cases "n = - 1")
    case True
    with res have bs: "bs = []" by auto
    show ?thesis
    proof (cases "errno s1 = EINTR")
      case e: True
      show ?thesis
      proof (cases "count < size w")
        case c: True
        from "1.prems" r True e c have "read_loop w count s1 = Some (w', count', s')"
          by (subst (asm) read_loop.simps) auto
        with "1.IH"(1) [OF r refl refl True e c] retry r True bs e c show ?thesis by blast
      next
        case c: False
        from "1.prems" r True e c have "w' = w \<and> count' = count \<and> s' = s1"
          by (subst (asm) read_loop.simps) auto
        with retry_exit r True bs e c show ?thesis by blast
      qed
    next
      case e: False
      from "1.prems" r True e
      have "w' = set_error ''systemError'' (''read failed: '' @ strerror s1 (errno s1)) w
            \<and> count' = count \<and> s' = sys_free s1"
        by (subst (asm) read_loop.simps) auto
      with fail r True bs e show ?thesis by blast
    qed
  next
    case False
    with res have n: "n = int (length bs)" "length bs \<le> size w - count" by auto
    show ?thesis
    proof (cases "n = 0")
      case z: True
      with n have bs: "bs = []" by simp
      from "1.prems" r z
      have "w' = set_error ''endOfFile''
               (''reached end of stream (read '' @ dec count @ '' bytes)'') w
            \<and> count' = count \<and> s' = sys_free s1"
        by (subst (asm) read_loop.simps) auto
      with eof r z bs show ?thesis by blast
    next
      case nz: False
      with n have bs: "bs \<noteq> []" by auto
      have natn: "nat n = length bs" using n by simp
      show ?thesis
      proof (cases "count + length bs < size w")
        case c: True
        from "1.prems" r False nz c natn
        have run': "read_loop (w\<lparr>data := store_at (data w) count bs\<rparr>) (count + length bs) s1
                = Some (w', count', s')"
          by (subst (asm) read_loop.simps) (auto simp: Let_def)
        have "P (w\<lparr>data := store_at (data w) count bs\<rparr>) (count + length bs) s1"
          using "1.IH"(2) [OF r refl refl False nz refl refl] c natn run' by simp
        with more r n bs c run' show ?thesis by blast
      next
        case c: False
        from "1.prems" r False nz c natn
        have "w' = w\<lparr>data := store_at (data w) count bs\<rparr> \<and> count' = count + length bs \<and> s' = s1"
          by (subst (asm) read_loop.simps) (auto simp: Let_def)
        with full r n bs c show ?thesis by blast
      qed
    qed
  qed
qed


lemma read_calls_append [simp]: "read_calls (a @ b) = read_calls a @ read_calls b"
  by (induction a rule: read_calls.induct) auto

lemma frees_append [simp]: "frees (a @ b) = frees a + frees b"
  by (induction a rule: frees.induct) auto

lemma read_loop_count:
  "read_loop w count s = Some (w', count', s') \<Longrightarrow> count \<le> size w \<Longrightarrow>
     count \<le> count' \<and> count' \<le> size w"
  by (induction rule: read_loop_induct) auto

lemma read_loop_worker:
  "read_loop w count s = Some (w', count', s') \<Longrightarrow>
     fd w' = fd w \<and> size w' = size w \<and> fd_was_non_blocking w' = fd_was_non_blocking w"
  by (induction rule: read_loop_induct) auto

lemma read_loop_os:
  "read_loop w count s = Some (w', count', s') \<Longrightarrow>
     flags s' = flags s \<and> fcntls s' = fcntls s \<and> strerror s' = strerror s \<and>
     malloc_fails s' = malloc_fails s"
  by (induction rule: read_loop_induct) (auto dest: sys_read_frame)

lemma read_loop_stream:
  "read_loop w count s = Some (w', count', s') \<Longrightarrow>
     stream s = take (count' - count) (stream s) @ stream s' \<and>
     count' - count \<le> length (stream s) \<and> count \<le> count'"
proof (induction rule: read_loop_induct)
  case (more w count s bs s1)
  from sys_read_stream [OF more(1)] have st: "stream s = bs @ stream s1" .
  from more.IH have c: "count + length bs \<le> count'"
    and l: "count' - (count + length bs) \<le> length (stream s1)"
    and e: "stream s1 = take (count' - (count + length bs)) (stream s1) @ stream s'"
    by simp_all
  from c have d: "count' - count = length bs + (count' - (count + length bs))" by simp
  have "stream s = take (count' - count) (stream s) @ stream s'"
    unfolding st d using e by simp
  moreover have "count' - count \<le> length (stream s)" unfolding st using c l by simp
  ultimately show ?case using c by simp
qed (auto dest: sys_read_stream)

lemma read_loop_ok:
  assumes "read_loop w count s = Some (w', count', s')" and "errmsg w = None"
    and "errmsg w' = None"
  shows "size w \<le> count' \<and> error_prop w' = error_prop w \<and> frees (trace s') = frees (trace s)"
  using assms
  by (induction rule: read_loop_induct) (auto dest: sys_read_trace)

lemma read_loop_err:
  assumes "read_loop w count s = Some (w', count', s')" and "errmsg w = None"
    and "errmsg w' \<noteq> None"
  shows "frees (trace s') = frees (trace s) + 1 \<and>
    ((error_prop w' = Some ''systemError'' \<and> errno s' \<noteq> EINTR \<and>
      errmsg w' = Some (snprintf256 (''read failed: '' @ strerror s (errno s')))) \<or>
     (error_prop w' = Some ''endOfFile'' \<and>
      errmsg w' = Some (snprintf256 (''reached end of stream (read '' @ dec count' @ '' bytes)''))))"
  using assms
proof (induction rule: read_loop_induct)
  case (retry w count s s1)
  then show ?case using sys_read_trace [OF retry(1)] sys_read_frame [OF retry(1)] by simp
next
  case (more w count s bs s1)
  then show ?case using sys_read_trace [OF more(1)] sys_read_frame [OF more(1)] by simp
next
  case (fail w count s s1)
  then show ?case using sys_read_trace [OF fail(1)] sys_read_frame [OF fail(1)] by simp
next
  case (eof w count s s1)
  then show ?case using sys_read_trace [OF eof(1)] by simp
qed auto


lemma read_loop_reads:
  assumes "read_loop w count s = Some (w', count', s')" and "count \<le> size w"
  shows "\<exists>rs. read_calls (trace s') = read_calls (trace s) @ rs \<and>
           reads_within (size w) count rs"
  using assms
proof (induction rule: read_loop_induct)
  case (retry w count s s1)
  then show ?case using sys_read_trace [OF retry(1)] by auto
next
  case (more w count s bs s1)
  then show ?case using sys_read_trace [OF more(1)] by auto
qed (auto dest: sys_read_trace)


lemma store_at_length: "count + length bs \<le> length d \<Longrightarrow> length (store_at d count bs) = length d"
  by (simp add: store_at_def)

lemma read_loop_data:
  assumes "read_loop w count s = Some (w', count', s')" and "count \<le> size w"
    and "length (data w) = size w"
  shows "data w' = take count (data w) @ map Some (take (count' - count) (stream s))
                   @ drop count' (data w)"
  using assms
proof (induction rule: read_loop_induct)
  case (more w count s bs s1)
  let ?d = "store_at (data w) count bs"
  have len: "length ?d = size w" using more by (simp add: store_at_length)
  from sys_read_stream [OF more(1)] have st: "stream s = bs @ stream s1" .
  from read_loop_count [OF more(5)] more have c: "count + length bs \<le> count'" "count' \<le> size w"
    by auto
  have ih: "data w' = take (count + length bs) ?d
              @ map Some (take (count' - (count + length bs)) (stream s1)) @ drop count' ?d"
    using more.IH more.prems more(3,4) len by simp
  have t: "take (count + length bs) ?d = take count (data w) @ map Some bs"
    using more.prems more(3) by (simp add: store_at_def)
  have d: "drop count' ?d = drop count' (data w)"
    using more.prems more(3) c by (simp add: store_at_def)
  have e: "take (count' - count) (stream s) = bs @ take (count' - (count + length bs)) (stream s1)"
    using c unfolding st by simp
  show ?case unfolding ih t d e by simp
next
  case (full w count s bs s1)
  from sys_read_stream [OF full(1)] have st: "stream s = bs @ stream s1" .
  show ?case using full unfolding st by (simp add: store_at_def)
next
  case (retry w count s s1)
  from sys_read_stream [OF retry(1)] have "stream s = stream s1" by simp
  with retry show ?case by simp
qed auto

section \<open>\<open>Execute\<close>\<close>

lemma same_io_refl [simp]: "same_io s s"
  by (simp add: same_io_def)

lemma same_io_trans: "same_io s s1 \<Longrightarrow> same_io s1 s2 \<Longrightarrow> same_io s s2"
  by (simp add: same_io_def)

lemma fcntl_GETFL_io: "fcntl_GETFL f s = (r, s1) \<Longrightarrow> same_io s s1"
  by (auto simp: fcntl_GETFL_def same_io_def split: list.splits option.splits)

lemma fcntl_SETFL_io: "fcntl_SETFL f opts s = (r, s1) \<Longrightarrow> same_io s s1"
  by (auto simp: fcntl_SETFL_def same_io_def split: list.splits option.splits)

lemma sys_malloc_io: "sys_malloc n s = (r, s1) \<Longrightarrow> same_io s s1"
  by (auto simp: sys_malloc_def same_io_def split: option.splits)

lemma sys_malloc_block: "sys_malloc n s = (Some blk, s1) \<Longrightarrow> blk = replicate n None"
  by (auto simp: sys_malloc_def split: option.splits)

lemma SetBlocking_io: "SetBlocking w s = (r, w2, s2) \<Longrightarrow> same_io s s2"
  by (auto simp: SetBlocking_def Let_def split: prod.splits if_splits
           dest: fcntl_GETFL_io fcntl_SETFL_io same_io_trans)

lemma SetBlocking_worker:
  "SetBlocking w s = (r, w2, s2) \<Longrightarrow>
     fd w2 = fd w \<and> size w2 = size w \<and> data w2 = data w \<and> errmsg w2 = errmsg w \<and>
     error_prop w2 = error_prop w"
  by (auto simp: SetBlocking_def Let_def split: prod.splits if_splits)

lemma UnsetBlocking_io: "UnsetBlocking w s = (r, s2) \<Longrightarrow> same_io s s2"
  by (auto simp: UnsetBlocking_def Let_def split: prod.splits if_splits
           dest: fcntl_GETFL_io fcntl_SETFL_io same_io_trans)

lemma Execute_cases [consumes 1, case_names no_memory not_blocking looped]:
  assumes "Execute w s = Some (w', s')"
  obtains
    (no_memory) s1 where "sys_malloc (size w) s = (None, s1)"
      "w' = set_error ''systemError'' (''malloc failed: '' @ strerror s1 (errno s1)) w" "s' = s1"
  | (not_blocking) blk s1 r w2 s2 where "sys_malloc (size w) s = (Some blk, s1)"
      "SetBlocking (w\<lparr>data := blk\<rparr>) s1 = (r, w2, s2)" "r \<noteq> 0"
      "w' = set_error ''systemError'' (''fnctl failed: '' @ strerror s2 (errno s2)) w2"
      "s' = sys_free s2"
  | (looped) blk s1 w2 s2 w3 count s3 r s4 where "sys_malloc (size w) s = (Some blk, s1)"
      "SetBlocking (w\<lparr>data := blk\<rparr>) s1 = (0, w2, s2)"
      "read_loop w2 0 s2 = Some (w3, count, s3)" "UnsetBlocking w3 s3 = (r, s4)"
      "(r \<noteq> 0 \<and> errmsg w3 = None \<and>
        w' = set_error ''systemError'' (''fnctl failed: '' @ strerror s4 (errno s4)) w3 \<and>
        s' = sys_free s4) \<or>
       ((r = 0 \<or> errmsg w3 \<noteq> None) \<and> w' = w3 \<and> s' = s4)"
proof -
  obtain m s1 where m: "sys_malloc (size w) s = (m, s1)" by (cases "sys_malloc (size w) s")
  show thesis
  proof (cases m)
    case None
    with assms m
    have "w' = set_error ''systemError'' (''malloc failed: '' @ strerror s1 (errno s1)) w"
      and "s' = s1"
      by (auto simp: Execute_def)
    with m None show thesis by (intro no_memory) auto
  next
    case (Some blk)
    obtain r w2 s2 where sb: "SetBlocking (w\<lparr>data := blk\<rparr>) s1 = (r, w2, s2)"
      by (cases "SetBlocking (w\<lparr>data := blk\<rparr>) s1")
    show thesis
    proof (cases "r = 0")
      case False
      with assms m Some sb
      have "w' = set_error ''systemError'' (''fnctl failed: '' @ strerror s2 (errno s2)) w2"
        and "s' = sys_free s2"
        by (auto simp: Execute_def)
      with m Some sb False show thesis by (intro not_blocking) auto
    next
      case True
      with assms m Some sb obtain w3 c s3 where l: "read_loop w2 0 s2 = Some (w3, c, s3)"
        by (cases "read_loop w2 0 s2") (auto simp: Execute_def)
      obtain r' s4 where ub: "UnsetBlocking w3 s3 = (r', s4)" by (cases "UnsetBlocking w3 s3")
      from assms m Some sb True l ub
      have "(r' \<noteq> 0 \<and> errmsg w3 = None \<and>
             w' = set_error ''systemError'' (''fnctl failed: '' @ strerror s4 (errno s4)) w3 \<and>
             s' = sys_free s4) \<or>
            ((r' = 0 \<or> errmsg w3 \<noteq> None) \<and> w' = w3 \<and> s' = s4)"
        by (auto simp: Execute_def split: if_splits)
      with m Some sb True l ub show thesis by (intro looped) auto
    qed
  qed
qed

lemma read_loop_returns:
  "max 1 (size w - count) \<le> answers (reads s) \<Longrightarrow> read_loop w count s \<noteq> None"
proof (induction w count s rule: read_loop.induct)
  case (1 w count s)
  from "1.prems" obtain e es where evs: "reads s = e # es"
    by (cases "reads s") (auto simp: answers_def)
  show ?case
  proof (cases e)
    case (Fail x)
    let ?s1 = "s\<lparr>reads := es, errno := x, trace := trace s @ [SysRead (size w - count) (- 1)]\<rparr>"
    have r: "sys_read (fd w) (size w - count) s = Some (- 1, [], ?s1)"
      using evs Fail by (simp add: sys_read_def)
    show ?thesis
    proof (cases "x = EINTR \<and> count < size w")
      case True
      then have "max 1 (size w - count) \<le> answers (reads ?s1)"
        using "1.prems" evs Fail by (simp add: answers_def)
      from "1.IH"(1) [OF r refl refl refl _ _ this] True
      have "read_loop w count ?s1 \<noteq> None" by auto
      then show ?thesis using r True by (subst read_loop.simps) auto
    next
      case False
      then show ?thesis using r by (subst read_loop.simps) auto
    qed
  next
    case (Deliver k)
    define n where "n = min (min k (size w - count)) (length (stream s))"
    let ?s1 = "s\<lparr>stream := drop n (stream s), reads := es,
                  trace := trace s @ [SysRead (size w - count) (int n)]\<rparr>"
    have r: "sys_read (fd w) (size w - count) s = Some (int n, take n (stream s), ?s1)"
      using evs Deliver by (simp add: sys_read_def n_def Let_def)
    show ?thesis
    proof (cases "n \<noteq> 0 \<and> count + n < size w")
      case True
      let ?w1 = "w\<lparr>data := store_at (data w) count (take n (stream s))\<rparr>"
      have "answers (reads s) = Suc (answers es)" using evs Deliver by (simp add: answers_def)
      with "1.prems" True have b: "max 1 (size ?w1 - (count + nat (int n))) \<le> answers (reads ?s1)"
        by simp arith
      have "read_loop ?w1 (count + nat (int n)) ?s1 \<noteq> None"
        using "1.IH"(2) [OF r refl refl _ _ refl refl _ b] True by simp
      then show ?thesis using r True by (subst read_loop.simps) (auto simp: Let_def)
    next
      case False
      then show ?thesis using r by (subst read_loop.simps) (auto simp: Let_def)
    qed
  qed
qed

lemma Execute_returns:
  assumes "max 1 (size w) \<le> answers (reads s)"
  shows "\<exists>r. Execute w s = Some r"
proof -
  obtain m s1 where m: "sys_malloc (size w) s = (m, s1)" by (cases "sys_malloc (size w) s")
  show ?thesis
  proof (cases m)
    case None
    with m show ?thesis by (simp add: Execute_def)
  next
    case (Some blk)
    obtain r w2 s2 where sb: "SetBlocking (w\<lparr>data := blk\<rparr>) s1 = (r, w2, s2)"
      by (cases "SetBlocking (w\<lparr>data := blk\<rparr>) s1")
    show ?thesis
    proof (cases "r = 0")
      case False
      with m Some sb show ?thesis by (simp add: Execute_def)
    next
      case True
      have "reads s2 = reads s"
        using sys_malloc_io [OF m] SetBlocking_io [OF sb] by (simp add: same_io_def)
      moreover have "size w2 = size w" using SetBlocking_worker [OF sb] by simp
      ultimately obtain w3 c s3 where l: "read_loop w2 0 s2 = Some (w3, c, s3)"
        using read_loop_returns [of w2 0 s2] assms by (cases "read_loop w2 0 s2") auto
      obtain r' s4 where "UnsetBlocking w3 s3 = (r', s4)" by (cases "UnsetBlocking w3 s3")
      with m Some sb True l show ?thesis by (simp add: Execute_def)
    qed
  qed
qed

section \<open>The loop of the synchronous addon\<close>

lemma cpp_read_loop_induct [consumes 1, case_names retry retry_exit fail eof more full]:
  assumes run: "cpp_read_loop f sz d count s = Some (m', d', count', s')"
    and retry: "\<And>f sz d count s s1.
        sys_read f (sz - count) s = Some (- 1, [], s1) \<Longrightarrow>
        errno s1 = EINTR \<or> errno s1 = EAGAIN \<Longrightarrow> count < sz \<Longrightarrow>
        cpp_read_loop f sz d count s1 = Some (m', d', count', s') \<Longrightarrow>
        P f sz d count s1 \<Longrightarrow> P f sz d count s"
    and retry_exit: "\<And>f sz d count s s1.
        sys_read f (sz - count) s = Some (- 1, [], s1) \<Longrightarrow>
        errno s1 = EINTR \<or> errno s1 = EAGAIN \<Longrightarrow> \<not> count < sz \<Longrightarrow>
        m' = None \<Longrightarrow> d' = d \<Longrightarrow> count' = count \<Longrightarrow> s' = s1 \<Longrightarrow> P f sz d count s"
    and fail: "\<And>f sz d count s s1.
        sys_read f (sz - count) s = Some (- 1, [], s1) \<Longrightarrow>
        errno s1 \<noteq> EINTR \<Longrightarrow> errno s1 \<noteq> EAGAIN \<Longrightarrow>
        m' = Some (snprintf256 (''read failed: '' @ strerror s1 (errno s1))) \<Longrightarrow>
        d' = d \<Longrightarrow> count' = count \<Longrightarrow> s' = s1 \<Longrightarrow> P f sz d count s"
    and eof: "\<And>f sz d count s s1.
        sys_read f (sz - count) s = Some (0, [], s1) \<Longrightarrow>
        m' = Some (snprintf256 (''reached end of stream (read '' @ dec count @ '' bytes)'')) \<Longrightarrow>
        d' = d \<Longrightarrow> count' = count \<Longrightarrow> s' = s1 \<Longrightarrow> P f sz d count s"
    and more: "\<And>f sz d count s bs s1.
        sys_read f (sz - count) s = Some (int (length bs), bs, s1) \<Longrightarrow> bs \<noteq> [] \<Longrightarrow>
        length bs \<le> sz - count \<Longrightarrow> count + length bs < sz \<Longrightarrow>
        cpp_read_loop f sz (store_at d count bs) (count + length bs) s1
          = Some (m', d', count', s') \<Longrightarrow>
        P f sz (store_at d count bs) (count + length bs) s1 \<Longrightarrow> P f sz d count s"
    and full: "\<And>f sz d count s bs s1.
        sys_read f (sz - count) s = Some (int (length bs), bs, s1) \<Longrightarrow> bs \<noteq> [] \<Longrightarrow>
        length bs \<le> sz - count \<Longrightarrow> \<not> count + length bs < sz \<Longrightarrow>
        m' = None \<Longrightarrow> d' = store_at d count bs \<Longrightarrow> count' = count + length bs \<Longrightarrow>
        s' = s1 \<Longrightarrow> P f sz d count s"
  shows "P f sz d count s"
  using run
proof (induction f sz d count s rule: cpp_read_loop.induct)
  case (1 f sz d count s)
  from "1.prems" obtain n bs s1 where r: "sys_read f (sz - count) s = Some (n, bs, s1)"
    by (subst (asm) cpp_read_loop.simps) (auto split: option.splits)
  note res = sys_read_result [OF r]
  show ?case
  proof (cases "n = - 1")
    case True
    with res have bs: "bs = []" by auto
    show ?thesis
    proof (cases "errno s1 = EINTR")
      case e: True
      show ?thesis
      proof (cases "count < sz")
        case c: True
        from "1.prems" r True e c
        have run': "cpp_read_loop f sz d count s1 = Some (m', d', count', s')"
          by (subst (asm) cpp_read_loop.simps) auto
        have "P f sz d count s1"
          using "1.IH"(1) [OF r refl refl True e c run'] by blast
        with retry r True bs e c run' show ?thesis by blast
      next
        case c: False
        from "1.prems" r True e c have "m' = None \<and> d' = d \<and> count' = count \<and> s' = s1"
          by (subst (asm) cpp_read_loop.simps) auto
        with retry_exit r True bs e c show ?thesis by blast
      qed
    next
      case e: False
      show ?thesis
      proof (cases "errno s1 = EAGAIN")
        case a: True
        show ?thesis
        proof (cases "count < sz")
          case c: True
          from "1.prems" r True e a c
          have run': "cpp_read_loop f sz d count s1 = Some (m', d', count', s')"
            by (subst (asm) cpp_read_loop.simps) auto
          have "P f sz d count s1"
            using "1.IH"(2) [OF r refl refl True e a c run'] by blast
          with retry r True bs a c run' show ?thesis by blast
        next
          case c: False
          from "1.prems" r True e a c
          have "m' = None \<and> d' = d \<and> count' = count \<and> s' = s1"
            by (subst (asm) cpp_read_loop.simps) auto
          with retry_exit r True bs a c show ?thesis by blast
        qed
      next
        case a: False
        from "1.prems" r True e a
        have "m' = Some (snprintf256 (''read failed: '' @ strerror s1 (errno s1)))
              \<and> d' = d \<and> count' = count \<and> s' = s1"
          by (subst (asm) cpp_read_loop.simps) auto
        with fail r True bs e a show ?thesis by blast
      qed
    qed
  next
    case False
    with res have n: "n = int (length bs)" "length bs \<le> sz - count" by auto
    show ?thesis
    proof (cases "n = 0")
      case z: True
      with n have bs: "bs = []" by simp
      from "1.prems" r z
      have "m' = Some (snprintf256 (''reached end of stream (read '' @ dec count @ '' bytes)''))
            \<and> d' = d \<and> count' = count \<and> s' = s1"
        by (subst (asm) cpp_read_loop.simps) auto
      with eof r z bs show ?thesis by blast
    next
      case nz: False
      with n have bs: "bs \<noteq> []" by auto
      have natn: "nat n = length bs" using n by simp
      show ?thesis
      proof (cases "count + length bs < sz")
        case c: True
        from "1.prems" r False nz c natn
        have run': "cpp_read_loop f sz (store_at d count bs) (count + length bs) s1
                = Some (m', d', count', s')"
          by (subst (asm) cpp_read_loop.simps) (auto simp: Let_def)
        have "P f sz (store_at d count bs) (count + length bs) s1"
          using "1.IH"(3) [OF r refl refl False nz refl refl] c natn run' by simp
        with more r n bs c run' show ?thesis by blast
      next
        case c: False
        from "1.prems" r False nz c natn
        have "m' = None \<and> d' = store_at d count bs \<and> count' = count + length bs \<and> s' = s1"
          by (subst (asm) cpp_read_loop.simps) (auto simp: Let_def)
        with full r n bs c show ?thesis by blast
      qed
    qed
  qed
qed

section \<open>Numbers and messages\<close>

lemma ToInt32_range: "- (2 ^ 31) \<le> ToInt32 x \<and> ToInt32 x < 2 ^ 31"
proof -
  define t where "t = (if 0 \<le> x then \<lfloor>x\<rfloor> else \<lceil>x\<rceil>)"
  have "0 \<le> t mod 2 ^ 32" "t mod 2 ^ 32 < 2 ^ 32" by simp_all
  then show ?thesis unfolding ToInt32_def Let_def t_def [symmetric] by auto
qed

lemma To_int_less: "To_int v < 2 ^ 31"
  using ToInt32_range by (induction v rule: To_int.induct) auto



lemma PosixReadWorker_simps [simp]:
  "fd (PosixReadWorker f n u) = f" "size (PosixReadWorker f n u) = n"
  "errmsg (PosixReadWorker f n u) = None" "error_prop (PosixReadWorker f n u) = None"
  by (simp_all add: PosixReadWorker_def)

lemma Execute_success:
  assumes run: "Execute w s = Some (w', s')" and "errmsg w = None" and ok: "errmsg w' = None"
  shows "data w' = map Some (take (size w) (stream s)) \<and> size w \<le> length (stream s) \<and>
         stream s' = drop (size w) (stream s) \<and> size w' = size w \<and>
         frees (trace s') = frees (trace s) \<and>
         (\<exists>rs. read_calls (trace s') = read_calls (trace s) @ rs \<and> reads_within (size w) 0 rs)"
  using run
proof (cases rule: Execute_cases)
  case (looped blk s1 w2 s2 w3 count s3 r s4)
  with ok have w': "w' = w3" and s': "s' = s4" by auto
  from sys_malloc_io [OF looped(1)] SetBlocking_io [OF looped(2)]
  have io: "same_io s s2" by (rule same_io_trans)
  from SetBlocking_worker [OF looped(2)] sys_malloc_block [OF looped(1)] assms(2)
  have w2: "size w2 = size w" "data w2 = replicate (size w) None" "errmsg w2 = None" by auto
  from read_loop_ok [OF looped(3) w2(3)] ok w' have "size w2 \<le> count"
    and fr: "frees (trace s3) = frees (trace s2)" by auto
  with read_loop_count [OF looped(3)] w2 have c: "count = size w" by simp
  from read_loop_stream [OF looped(3)] c
  have st: "stream s2 = take (size w) (stream s2) @ stream s3" "size w \<le> length (stream s2)"
    by auto
  then have dr: "stream s3 = drop (size w) (stream s2)"
    by (metis append_eq_conv_conj length_take min.absorb2)
  from read_loop_data [OF looped(3)] w2 c
  have d: "data w3 = map Some (take (size w) (stream s2))" by simp
  from read_loop_reads [OF looped(3)] w2
  obtain rs where rs: "read_calls (trace s3) = read_calls (trace s2) @ rs"
    "reads_within (size w) 0 rs" by auto
  from UnsetBlocking_io [OF looped(4)] have io': "same_io s3 s4" .
  from read_loop_worker [OF looped(3)] w2 have "size w3 = size w" by simp
  with io io' w' s' d st dr fr rs show ?thesis by (auto simp: same_io_def)
qed (use ok in auto)

lemma Execute_error:
  assumes run: "Execute w s = Some (w', s')" and "errmsg w = None" and err: "errmsg w' \<noteq> None"
  shows "error_prop w' = Some ''systemError'' \<or> error_prop w' = Some ''endOfFile''"
  using run
proof (cases rule: Execute_cases)
  case (looped blk s1 w2 s2 w3 count s3 r s4)
  from SetBlocking_worker [OF looped(2)] assms(2) have "errmsg w2 = None" by simp
  from read_loop_err [OF looped(3) this] looped(5) err show ?thesis by auto
qed auto

lemma Execute_frees:
  assumes run: "Execute w s = Some (w', s')" and "errmsg w = None"
    and "malloc_fails s = None"
  shows "frees (trace s') = frees (trace s) + (if errmsg w' = None then 0 else 1)"
  using run
proof (cases rule: Execute_cases)
  case (no_memory s1)
  with assms(3) show ?thesis by (simp add: sys_malloc_def)
next
  case (not_blocking blk s1 r w2 s2)
  from sys_malloc_io [OF not_blocking(1)] SetBlocking_io [OF not_blocking(2)]
  have "same_io s s2" by (rule same_io_trans)
  with not_blocking show ?thesis by (simp add: same_io_def)
next
  case (looped blk s1 w2 s2 w3 count s3 r s4)
  from sys_malloc_io [OF looped(1)] SetBlocking_io [OF looped(2)]
  have io: "same_io s s2" by (rule same_io_trans)
  from UnsetBlocking_io [OF looped(4)] have io': "same_io s3 s4" .
  from SetBlocking_worker [OF looped(2)] assms(2) have w2: "errmsg w2 = None" by simp
  show ?thesis
  proof (cases "errmsg w3 = None")
    case True
    from read_loop_ok [OF looped(3) w2 True] io io' looped(5) True show ?thesis
      by (auto simp: same_io_def)
  next
    case False
    from read_loop_err [OF looped(3) w2 False] io io' looped(5) False show ?thesis
      by (auto simp: same_io_def)
  qed
qed

lemma cpp_read_loop_count:
  "cpp_read_loop f sz d count s = Some (m', d', count', s') \<Longrightarrow> count \<le> sz \<Longrightarrow>
     count \<le> count' \<and> count' \<le> sz"
  by (induction rule: cpp_read_loop_induct) auto

lemma cpp_read_loop_ok:
  "cpp_read_loop f sz d count s = Some (None, d', count', s') \<Longrightarrow> sz \<le> count'"
  by (induction rule: cpp_read_loop_induct) auto

lemma cpp_read_loop_os:
  "cpp_read_loop f sz d count s = Some (m', d', count', s') \<Longrightarrow>
     flags s' = flags s \<and> fcntls s' = fcntls s \<and> strerror s' = strerror s \<and>
     frees (trace s') = frees (trace s)"
proof (induction rule: cpp_read_loop_induct)
  case (retry f sz d count s s1)
  then show ?case using sys_read_frame [OF retry(1)] sys_read_trace [OF retry(1)] by simp
next
  case (more f sz d count s bs s1)
  then show ?case using sys_read_frame [OF more(1)] sys_read_trace [OF more(1)] by simp
qed (auto dest: sys_read_frame sys_read_trace)

lemma cpp_read_loop_stream:
  "cpp_read_loop f sz d count s = Some (m', d', count', s') \<Longrightarrow>
     stream s = take (count' - count) (stream s) @ stream s' \<and>
     count' - count \<le> length (stream s) \<and> count \<le> count'"
proof (induction rule: cpp_read_loop_induct)
  case (more f sz d count s bs s1)
  from sys_read_stream [OF more(1)] have st: "stream s = bs @ stream s1" .
  from more.IH have c: "count + length bs \<le> count'"
    and l: "count' - (count + length bs) \<le> length (stream s1)"
    and e: "stream s1 = take (count' - (count + length bs)) (stream s1) @ stream s'"
    by simp_all
  from c have d: "count' - count = length bs + (count' - (count + length bs))" by simp
  have "stream s = take (count' - count) (stream s) @ stream s'"
    unfolding st d using e by simp
  moreover have "count' - count \<le> length (stream s)" unfolding st using c l by simp
  ultimately show ?case using c by simp
qed (auto dest: sys_read_stream)

lemma cpp_read_loop_reads:
  assumes "cpp_read_loop f sz d count s = Some (m', d', count', s')" and "count \<le> sz"
  shows "\<exists>rs. read_calls (trace s') = read_calls (trace s) @ rs \<and> reads_within sz count rs"
  using assms
proof (induction rule: cpp_read_loop_induct)
  case (retry f sz d count s s1)
  then show ?case using sys_read_trace [OF retry(1)] by auto
next
  case (more f sz d count s bs s1)
  then show ?case using sys_read_trace [OF more(1)] by auto
qed (auto dest: sys_read_trace)

lemma cpp_read_loop_data:
  assumes "cpp_read_loop f sz d count s = Some (m', d', count', s')" and "count \<le> sz"
    and "length d = sz"
  shows "d' = take count d @ map Some (take (count' - count) (stream s)) @ drop count' d"
  using assms
proof (induction rule: cpp_read_loop_induct)
  case (more f sz d count s bs s1)
  let ?d = "store_at d count bs"
  have len: "length ?d = sz" using more by (simp add: store_at_length)
  from sys_read_stream [OF more(1)] have st: "stream s = bs @ stream s1" .
  from cpp_read_loop_count [OF more(5)] more have c: "count + length bs \<le> count'" "count' \<le> sz"
    by auto
  have ih: "d' = take (count + length bs) ?d
              @ map Some (take (count' - (count + length bs)) (stream s1)) @ drop count' ?d"
    using more.IH more.prems more(3,4) len by simp
  have t: "take (count + length bs) ?d = take count d @ map Some bs"
    using more.prems more(3) by (simp add: store_at_def)
  have dd: "drop count' ?d = drop count' d"
    using more.prems more(3) c by (simp add: store_at_def)
  have e: "take (count' - count) (stream s) = bs @ take (count' - (count + length bs)) (stream s1)"
    using c unfolding st by simp
  show ?case unfolding ih t dd e by simp
next
  case (full f sz d count s bs s1)
  from sys_read_stream [OF full(1)] have st: "stream s = bs @ stream s1" .
  show ?case using full unfolding st by (simp add: store_at_def)
next
  case (retry f sz d count s s1)
  from sys_read_stream [OF retry(1)] have "stream s = stream s1" by simp
  with retry show ?case by simp
qed auto

lemma cpp_set_blocking_io: "cpp_set_blocking f s = (r, s2) \<Longrightarrow> same_io s s2"
  by (auto simp: cpp_set_blocking_def Let_def split: prod.splits if_splits
           dest: fcntl_GETFL_io fcntl_SETFL_io same_io_trans)

lemma cpp_restore_io: "cpp_restore f was opts s = (ok, s2) \<Longrightarrow> same_io s s2"
  by (auto simp: cpp_restore_def Let_def split: prod.splits if_splits dest: fcntl_SETFL_io)

lemma cpp_Read_cases [consumes 1, case_names rejected exited looped]:
  assumes run: "cpp_Read info s = Some (c, s')"
  obtains
    (rejected) "s' = s" "\<And>d. c \<noteq> Returned (JBuffer d)" "c \<noteq> Exited"
  | (exited) "c = Exited" "same_io s s'"
  | (looped) f was opts s2 m d count s3 ok s4 where
      "cpp_set_blocking f s = (Some (was, opts), s2)"
      "IsNumber (arg info 1)" "0 < To_int (arg info 1)"
      "cpp_read_loop f (nat (To_int (arg info 1)))
         (replicate (nat (To_int (arg info 1)) mod 2 ^ 32) None) 0 s2 = Some (m, d, count, s3)"
      "cpp_restore f was opts s3 = (ok, s4)"
      "case m of
         Some msg \<Rightarrow> c = Threw (Error msg) \<and> s' = s3
       | None \<Rightarrow> s' = s4 \<and> c = (if ok then Returned (JBuffer d) else Exited)"
proof -
  obtain f pending where g: "get_fd_from_socket (arg info 0) = (f, pending)"
    by (cases "get_fd_from_socket (arg info 0)")
  show thesis
  proof (cases "length info < 2 \<or> f < 0 \<or> \<not> IsNumber (arg info 1) \<or> To_int (arg info 1) \<le> 0")
    case True
    with run g have "s' = s \<and> (\<forall>d. c \<noteq> Returned (JBuffer d)) \<and> c \<noteq> Exited"
      by (auto simp: cpp_Read_def split: if_splits option.splits)
    then show thesis by (intro rejected) auto
  next
    case valid: False
    obtain b s2 where sb: "cpp_set_blocking f s = (b, s2)" by (cases "cpp_set_blocking f s")
    show thesis
    proof (cases b)
      case None
      with run g valid sb have "c = Exited \<and> s' = s2" by (auto simp: cpp_Read_def)
      with cpp_set_blocking_io [OF sb] show thesis by (intro exited) auto
    next
      case (Some p)
      obtain was opts where p: "p = (was, opts)" by (cases p)
      let ?N = "nat (To_int (arg info 1))"
      from run g valid sb Some p obtain m d count s3 where
        l: "cpp_read_loop f ?N (replicate (?N mod 2 ^ 32) None) 0 s2 = Some (m, d, count, s3)"
        by (cases "cpp_read_loop f ?N (replicate (?N mod 2 ^ 32) None) 0 s2")
           (auto simp: cpp_Read_def Let_def)
      obtain ok s4 where rs: "cpp_restore f was opts s3 = (ok, s4)"
        by (cases "cpp_restore f was opts s3")
      from run g valid sb Some p l rs
      have "case m of
              Some msg \<Rightarrow> c = Threw (Error msg) \<and> s' = s3
            | None \<Rightarrow> s' = s4 \<and> c = (if ok then Returned (JBuffer d) else Exited)"
        by (auto simp: cpp_Read_def Let_def split: option.splits if_splits)
      with sb Some p l rs valid show thesis by (intro looped) auto
    qed
  qed
qed

lemma cpp_Read_success:
  assumes run: "cpp_Read info s = Some (Returned (JBuffer d), s')"
  shows "d = map Some (take (nat (To_int (arg info 1))) (stream s)) \<and>
         nat (To_int (arg info 1)) \<le> length (stream s) \<and>
         stream s' = drop (nat (To_int (arg info 1))) (stream s) \<and>
         (\<exists>rs. read_calls (trace s') = read_calls (trace s) @ rs \<and>
               reads_within (nat (To_int (arg info 1))) 0 rs)"
  using run
proof (cases rule: cpp_Read_cases)
  case (looped f was opts s2 m d' count s3 ok s4)
  let ?N = "nat (To_int (arg info 1))"
  from looped(6) have m: "m = None" and s': "s' = s4" and d: "d' = d"
    by (auto split: option.splits if_splits)
  have N: "?N mod 2 ^ 32 = ?N" using To_int_less [of "arg info 1"] by simp
  note l = looped(4) [unfolded m N]
  from cpp_read_loop_ok [OF l] cpp_read_loop_count [OF l] have c: "count = ?N" by simp
  from cpp_set_blocking_io [OF looped(1)] have io: "same_io s s2" .
  from cpp_restore_io [OF looped(5)] have io': "same_io s3 s4" .
  from cpp_read_loop_stream [OF l] c
  have st: "stream s2 = take ?N (stream s2) @ stream s3" "?N \<le> length (stream s2)" by auto
  then have dr: "stream s3 = drop ?N (stream s2)"
    by (metis append_eq_conv_conj length_take min.absorb2)
  from cpp_read_loop_data [OF l] c have dd: "d' = map Some (take ?N (stream s2))" by simp
  from cpp_read_loop_reads [OF l]
  obtain rs where "read_calls (trace s3) = read_calls (trace s2) @ rs" "reads_within ?N 0 rs"
    by auto
  with io io' s' d dd st dr show ?thesis by (auto simp: same_io_def)
qed auto


section \<open>The exported function\<close>

lemmas eval_defs = Read_def arg_def LooksLikeASocket_def SocketIsReadable_def GetFdFromSocket_def
  tcp_socket_def os_example_def ToInt32_def AsyncQueueWorker_def Execute_def sys_malloc_def
  SetBlocking_def UnsetBlocking_def fcntl_GETFL_def fcntl_SETFL_def O_NONBLOCK_def EINTR_def
  EAGAIN_def sys_read_def PosixReadWorker_def WorkComplete_def HandleOKCallback_def
  HandleErrorCallback_def ErrorWithProperty_def set_error_def sys_free_def store_at_def
  snprintf256_def Let_def

lemmas cpp_eval_defs = cpp_Read_def get_fd_from_socket_def cpp_set_blocking_def cpp_restore_def

lemma Read_cases [consumes 1, case_names threw bad_stream worker]:
  assumes run: "Read info u s = Some (c, calls, s')"
  obtains
    (threw) e where "c = Threw e" "calls = []" "s' = s"
  | (bad_stream) m where "c = Returned JUndefined"
      "calls = [[ErrorWithProperty ''badStream'' m]]" "s' = s"
  | (worker) w' where "length info = 3" "LooksLikeASocket (arg info 0)"
      "IsNumber (arg info 1)" "0 < To_int (arg info 1)" "IsFunction (arg info 2)"
      "SocketIsReadable (arg info 0)" "GetFdFromSocket (arg info 0) \<noteq> - 1"
      "Execute (PosixReadWorker (GetFdFromSocket (arg info 0)) (nat (To_int (arg info 1))) u) s
         = Some (w', s')"
      "c = Returned JUndefined" "calls = [WorkComplete w']"
proof (cases "length info = 3 \<and> LooksLikeASocket (arg info 0) \<and> IsNumber (arg info 1) \<and>
    0 < To_int (arg info 1) \<and> IsFunction (arg info 2)")
  case False
  with run have "\<exists>e. c = Threw e \<and> calls = [] \<and> s' = s"
    by (auto simp: Read_def split: if_splits)
  then show thesis using threw by blast
next
  case valid: True
  show thesis
  proof (cases "SocketIsReadable (arg info 0) \<and> GetFdFromSocket (arg info 0) \<noteq> - 1")
    case False
    with run valid
    have "\<exists>m. c = Returned JUndefined \<and> calls = [[ErrorWithProperty ''badStream'' m]] \<and> s' = s"
      by (auto simp: Read_def Let_def split: if_splits)
    then show thesis using bad_stream by blast
  next
    case True
    let ?w = "PosixReadWorker (GetFdFromSocket (arg info 0)) (nat (To_int (arg info 1))) u"
    from run valid True obtain w' where "Execute ?w s = Some (w', s')"
      "c = Returned JUndefined" "calls = [WorkComplete w']"
      by (auto simp: Read_def Let_def AsyncQueueWorker_def split: option.splits)
    with valid True show thesis by (intro worker) auto
  qed
qed

lemma ErrorWithProperty_not_null [simp]: "ErrorWithProperty p m \<noteq> JNull"
  by (simp add: ErrorWithProperty_def)

lemma appended_drop: "ys = xs @ rs \<Longrightarrow> drop (length xs) ys = rs"
  by simp



lemma is_error_outcome_flag:
  "p = ''badStream'' \<or> p = ''endOfFile'' \<or> p = ''systemError'' \<Longrightarrow>
     is_error_outcome (ErrorWithProperty p m)"
  by (auto simp: is_error_outcome_def ErrorWithProperty_def error_flags_def)

lemma WorkComplete_terminal:
  assumes run: "Execute (PosixReadWorker f n u) s = Some (w', s')" and n: "n < 2 ^ 32"
  shows "terminal_outcome n (WorkComplete w')"
proof (cases "errmsg w' = None")
  case True
  from Execute_success [OF run _ True]
  have "data w' = map Some (take n (stream s))" "n \<le> length (stream s)" "size w' = n"
    by auto
  with True n show ?thesis by (simp add: WorkComplete_def HandleOKCallback_def)
next
  case False
  from Execute_error [OF run _ False]
  have "error_prop w' = Some ''systemError'' \<or> error_prop w' = Some ''endOfFile''" by simp
  then have "is_error_outcome (ErrorWithProperty (the (error_prop w')) (the (errmsg w')))"
    by (intro is_error_outcome_flag) auto
  with False show ?thesis by (auto simp: WorkComplete_def HandleErrorCallback_def)
qed

lemma AsyncQueueWorker_looped:
  assumes "sys_malloc n s = (Some blk, s1)"
    and "SetBlocking (PosixReadWorker f n u\<lparr>data := blk\<rparr>) s1 = (0, w2, s2)"
    and "read_loop w2 0 s2 = Some (w3, count, s3)"
    and "UnsetBlocking w3 s3 = (r, s4)"
  shows "AsyncQueueWorker (PosixReadWorker f n u) s =
     (if r \<noteq> 0 \<and> errmsg w3 = None then
        Some ([WorkComplete (set_error ''systemError''
                 (''fnctl failed: '' @ strerror s4 (errno s4)) w3)], sys_free s4)
      else Some ([WorkComplete w3], s4))"
  using assms by (simp add: AsyncQueueWorker_def Execute_def)

lemma ToInt32_floor: "0 \<le> x \<Longrightarrow> ToInt32 (of_int \<lfloor>x\<rfloor>) = ToInt32 x"
  by (simp add: ToInt32_def)

lemma nonblock_sets_append [simp]:
  "nonblock_sets (a @ b) = nonblock_sets a + nonblock_sets b"
  by (induction a rule: nonblock_sets.induct) auto

lemma nonblock_cleared: "0 \<le> x \<Longrightarrow> int (nat (x AND NOT O_NONBLOCK)) AND O_NONBLOCK = 0"
  by (simp add: O_NONBLOCK_def and.assoc)

lemma cpp_set_blocking_clears:
  assumes "cpp_set_blocking f s = (Some (was, opts), s2)" and "int (flags s) AND O_NONBLOCK \<noteq> 0"
  shows "was \<and> int (flags s2) AND O_NONBLOCK = 0 \<and>
         nonblock_sets (trace s2) = nonblock_sets (trace s)"
  using assms nonblock_cleared [of "int (flags s)"]
  by (auto simp: cpp_set_blocking_def fcntl_GETFL_def fcntl_SETFL_def Let_def and.assoc
           split: list.splits option.splits if_splits prod.splits)

lemma cpp_read_loop_nonblock_sets:
  "cpp_read_loop f sz d count s = Some (m', d', count', s') \<Longrightarrow>
     nonblock_sets (trace s') = nonblock_sets (trace s)"
proof (induction rule: cpp_read_loop_induct)
  case (retry f sz d count s s1)
  then show ?case using sys_read_trace [OF retry(1)] by simp
next
  case (more f sz d count s bs s1)
  then show ?case using sys_read_trace [OF more(1)] by simp
qed (auto dest: sys_read_trace)

lemma read_loop_nonblock_sets:
  "read_loop w count s = Some (w', count', s') \<Longrightarrow>
     nonblock_sets (trace s') = nonblock_sets (trace s)"
proof (induction rule: read_loop_induct)
  case (retry w count s s1)
  then show ?case using sys_read_trace [OF retry(1)] by simp
next
  case (more w count s bs s1)
  then show ?case using sys_read_trace [OF more(1)] by simp
qed (auto dest: sys_read_trace)

lemma or_and_same: "((x::int) OR b) AND b = b"
  by (auto simp: bit_eq_iff bit_and_iff bit_or_iff)

lemma nonblock_set: "0 \<le> x \<Longrightarrow> int (nat (x OR O_NONBLOCK)) AND O_NONBLOCK \<noteq> 0"
  by (simp add: or_and_same) (simp add: O_NONBLOCK_def)

lemma SetBlocking_no_fault:
  assumes "SetBlocking w s = (r, w2, s2)" and "fcntls s = []"
    and "int (flags s) AND O_NONBLOCK \<noteq> 0"
  shows "r = 0 \<and> fd_was_non_blocking w2 \<and> fcntls s2 = [] \<and>
         int (flags s2) AND O_NONBLOCK = 0 \<and>
         nonblock_sets (trace s2) = nonblock_sets (trace s)"
  using assms nonblock_cleared [of "int (flags s)"]
  by (auto simp: SetBlocking_def fcntl_GETFL_def fcntl_SETFL_def Let_def and.assoc
           split: if_splits)

lemma UnsetBlocking_no_fault:
  assumes "UnsetBlocking w s = (r, s2)" and "fcntls s = []" and "fd_was_non_blocking w"
  shows "r = 0 \<and> int (flags s2) AND O_NONBLOCK \<noteq> 0 \<and>
         nonblock_sets (trace s2) = nonblock_sets (trace s) + 1"
  using assms nonblock_set [of "int (flags s)"]
  by (auto simp: UnsetBlocking_def fcntl_GETFL_def fcntl_SETFL_def Let_def split: if_splits)

lemma ToInt32_not_positive:
  assumes "- (2 ^ 31) \<le> x" and "x < 1"
  shows "ToInt32 x \<le> 0"
proof (cases "0 \<le> x")
  case True
  with assms have "\<lfloor>x\<rfloor> = 0" by (simp add: floor_eq_iff)
  with True show ?thesis by (simp add: ToInt32_def)
next
  case False
  define t where "t = \<lceil>x\<rceil>"
  from False have "t \<le> 0" unfolding t_def by (simp add: ceiling_le_iff)
  moreover from assms(1) have "- (2 ^ 31) \<le> t" unfolding t_def
    by (metis ceiling_mono ceiling_of_int of_int_minus of_int_numeral of_int_power)
  ultimately have "t = 0 \<or> (t mod 2 ^ 32 = t + 2 ^ 32 \<and> t < 0)"
  proof (cases "t = 0")
    case False
    with \<open>t \<le> 0\<close> \<open>- (2 ^ 31) \<le> t\<close> have b: "0 \<le> t + 2 ^ 32" "t + 2 ^ 32 < 2 ^ 32" "t < 0"
      by simp_all
    have "t mod 2 ^ 32 = (t + 2 ^ 32) mod 2 ^ 32" by simp
    also have "\<dots> = t + 2 ^ 32" using b(1,2) by (rule mod_pos_pos_trivial)
    finally show ?thesis using b(3) by simp
  qed simp
  then show ?thesis
    using False \<open>- (2 ^ 31) \<le> t\<close> unfolding ToInt32_def Let_def t_def [symmetric] by auto
qed

section \<open>The properties of the specification\<close>

text \<open>
  C1. A request for \<open>N\<close> bytes that ends with success hands the callback \<open>null\<close> and a
  buffer of exactly \<open>N\<close> bytes, the first \<open>N\<close> bytes of the descriptor in order; \<open>N\<close>
  bytes and no more have left the descriptor, and every \<open>read\<close> call asked for \<open>N\<close>
  minus what the calls before it returned. The same holds for the buffer the synchronous
  addon returns.
\<close>

theorem success_delivers_exact_bytes:
  "(Read info u s = Some (c, [[JNull, b]], s') \<longrightarrow>
      b = JBuffer (map Some (take (nat (To_int (arg info 1))) (stream s))) \<and>
      nat (To_int (arg info 1)) \<le> length (stream s) \<and>
      stream s' = drop (nat (To_int (arg info 1))) (stream s) \<and>
      reads_within (nat (To_int (arg info 1))) 0
        (drop (length (read_calls (trace s))) (read_calls (trace s')))) \<and>
   (cpp_Read info s = Some (Returned (JBuffer d), s'') \<longrightarrow>
      d = map Some (take (nat (To_int (arg info 1))) (stream s)) \<and>
      nat (To_int (arg info 1)) \<le> length (stream s) \<and>
      stream s'' = drop (nat (To_int (arg info 1))) (stream s) \<and>
      reads_within (nat (To_int (arg info 1))) 0
        (drop (length (read_calls (trace s))) (read_calls (trace s''))))"
proof (intro conjI impI)
  let ?N = "nat (To_int (arg info 1))"
  assume run: "Read info u s = Some (c, [[JNull, b]], s')"
  then have "b = JBuffer (map Some (take ?N (stream s))) \<and> ?N \<le> length (stream s) \<and>
      stream s' = drop ?N (stream s) \<and>
      reads_within ?N 0 (drop (length (read_calls (trace s))) (read_calls (trace s')))"
  proof (cases rule: Read_cases)
    case (worker w')
    let ?w = "PosixReadWorker (GetFdFromSocket (arg info 0)) ?N u"
    from worker(10) have ok: "errmsg w' = None"
      by (auto simp: WorkComplete_def HandleErrorCallback_def split: if_splits)
    with worker(10) have b: "b = JBuffer (take (size w' mod 2 ^ 32) (data w'))"
      by (simp add: WorkComplete_def HandleOKCallback_def)
    from Execute_success [OF worker(8) _ ok]
    obtain rs where e: "data w' = map Some (take ?N (stream s))" "?N \<le> length (stream s)"
      "stream s' = drop ?N (stream s)" "size w' = ?N"
      "read_calls (trace s') = read_calls (trace s) @ rs" "reads_within ?N 0 rs"
      by auto
    have N: "?N mod 2 ^ 32 = ?N" using To_int_less [of "arg info 1"] by simp
    from e b N appended_drop [OF e(5)] show ?thesis by simp
  qed auto
  then show "b = JBuffer (map Some (take ?N (stream s)))" "?N \<le> length (stream s)"
    "stream s' = drop ?N (stream s)"
    "reads_within ?N 0 (drop (length (read_calls (trace s))) (read_calls (trace s')))"
    by simp_all
next
  let ?N = "nat (To_int (arg info 1))"
  assume run: "cpp_Read info s = Some (Returned (JBuffer d), s'')"
  from cpp_Read_success [OF run]
  obtain rs where e: "d = map Some (take ?N (stream s))" "?N \<le> length (stream s)"
      "stream s'' = drop ?N (stream s)"
      "read_calls (trace s'') = read_calls (trace s) @ rs" "reads_within ?N 0 rs"
    by auto
  from e appended_drop [OF e(4)]
  show "d = map Some (take ?N (stream s))" "?N \<le> length (stream s)"
    "stream s'' = drop ?N (stream s)"
    "reads_within ?N 0 (drop (length (read_calls (trace s))) (read_calls (trace s'')))"
    by simp_all
qed

theorem success_delivers_exact_bytes_witness:
  "\<exists>s' s''.
     Read [tcp_socket 7, JNumber (Fin 25), JFunction] False
       (os_example ''----------0123456789ABCDEFGHIJKLMNOPQRSTUVWXYZ''
          [Deliver 10, Fail EINTR, Deliver 10, Deliver 26] [])
       = Some (Returned JUndefined, [[JNull, JBuffer (map Some ''----------0123456789ABCDE'')]], s')
     \<and> stream s' = ''FGHIJKLMNOPQRSTUVWXYZ''
     \<and> read_calls (trace s') = [(25, 10), (15, - 1), (15, 10), (5, 5)]
     \<and> cpp_Read [tcp_socket 7, JNumber (Fin 25), JFunction]
       (os_example ''----------0123456789ABCDEFGHIJKLMNOPQRSTUVWXYZ''
          [Deliver 10, Fail EAGAIN, Deliver 10, Deliver 26] [])
       = Some (Returned (JBuffer (map Some ''----------0123456789ABCDE'')), s'')
     \<and> stream s'' = ''FGHIJKLMNOPQRSTUVWXYZ''"
proof -
  let ?info = "[tcp_socket 7, JNumber (Fin 25), JFunction]"
  let ?s = "os_example ''----------0123456789ABCDEFGHIJKLMNOPQRSTUVWXYZ''
          [Deliver 10, Fail EINTR, Deliver 10, Deliver 26] []"
  let ?t = "os_example ''----------0123456789ABCDEFGHIJKLMNOPQRSTUVWXYZ''
          [Deliver 10, Fail EAGAIN, Deliver 10, Deliver 26] []"
  obtain s' where r: "Read ?info False ?s
      = Some (Returned JUndefined, [[JNull, JBuffer (map Some ''----------0123456789ABCDE'')]], s')"
    and t: "read_calls (trace s') = [(25, 10), (15, - 1), (15, 10), (5, 5)]"
    by (simp add: eval_defs read_loop.simps)
  obtain s'' where c: "cpp_Read ?info ?t
      = Some (Returned (JBuffer (map Some ''----------0123456789ABCDE'')), s'')"
    by (simp add: eval_defs cpp_eval_defs cpp_read_loop.simps)
  have n: "nat (To_int (arg ?info 1)) = 25" by (simp add: arg_def ToInt32_def)
  from success_delivers_exact_bytes [of ?info False ?s _ _ s', THEN conjunct1, rule_format, OF r]
  have 1: "stream s' = ''FGHIJKLMNOPQRSTUVWXYZ''"
    unfolding n by (simp add: os_example_def)
  from success_delivers_exact_bytes [of ?info _ ?t _ _ _ _ s'', THEN conjunct2, rule_format, OF c]
  have 2: "stream s'' = ''FGHIJKLMNOPQRSTUVWXYZ''"
    unfolding n by (simp add: os_example_def)
  from r t c 1 2 show ?thesis by blast
qed

text \<open>
  C2. The specification has a \<open>read\<close> that fails with \<open>EINTR\<close> or \<open>EAGAIN\<close> retried,
  never reported. The loop of the worker retries \<open>EINTR\<close> only: a \<open>read\<close> that fails
  with \<open>EAGAIN\<close> ends the loop with \<open>systemError\<close> and the message
  \<open>read failed: ...\<close>, the buffer is freed, and the callback gets that error. The
  loop of the synchronous addon retries both.
\<close>

theorem worker_reports_EAGAIN:
  assumes "reads s = Fail EAGAIN # es"
  shows "read_loop w count s =
     Some (set_error ''systemError'' (''read failed: '' @ strerror s EAGAIN) w, count,
           sys_free (s\<lparr>reads := es, errno := EAGAIN,
                       trace := trace s @ [SysRead (size w - count) (- 1)]\<rparr>))"
  using assms by (subst read_loop.simps) (simp add: sys_read_def EAGAIN_def EINTR_def)

theorem worker_reports_EAGAIN_witness:
  "read_loop (PosixReadWorker 7 10 True) 4
      (os_example ''EFGHIJKLMNOPQRSTUVWXYZ'' [Fail EAGAIN, Deliver 6] [])
    = Some (set_error ''systemError'' ''read failed: errno 11'' (PosixReadWorker 7 10 True), 4,
            sys_free (os_example ''EFGHIJKLMNOPQRSTUVWXYZ'' [Fail EAGAIN, Deliver 6] []
              \<lparr>reads := [Deliver 6], errno := EAGAIN, trace := [SysRead 6 (- 1)]\<rparr>)) \<and>
   (\<exists>s'. Read [tcp_socket 7, JNumber (Fin 10), JFunction] False
            (os_example ''ABCDEFGHIJKLMNOPQRSTUVWXYZ'' [Deliver 4, Fail EAGAIN, Deliver 6] [])
          = Some (Returned JUndefined,
              [[ErrorWithProperty ''systemError'' ''read failed: errno 11'']], s'))"
proof -
  let ?s = "os_example ''EFGHIJKLMNOPQRSTUVWXYZ'' [Fail EAGAIN, Deliver 6] []"
  have r: "reads ?s = Fail EAGAIN # [Deliver 6]" by (simp add: os_example_def)
  have "\<exists>s'. Read [tcp_socket 7, JNumber (Fin 10), JFunction] False
            (os_example ''ABCDEFGHIJKLMNOPQRSTUVWXYZ'' [Deliver 4, Fail EAGAIN, Deliver 6] [])
          = Some (Returned JUndefined,
              [[ErrorWithProperty ''systemError'' ''read failed: errno 11'']], s')"
    by (simp add: eval_defs read_loop.simps dec.simps)
  with worker_reports_EAGAIN [OF r, of "PosixReadWorker 7 10 True" 4] show ?thesis
    by (simp add: os_example_def PosixReadWorker_def EAGAIN_def dec.simps)
qed

text \<open>
  C3. The specification has the non-blocking flag set again on every way out of the
  loop, the error paths included. The synchronous \<open>Read\<close> returns from inside its loop
  when it throws (its comment asks for a \<open>break\<close> instead): after a thrown loop error
  on a descriptor that was non-blocking, \<open>O_NONBLOCK\<close> is still cleared and no
  \<open>F_SETFL\<close> call has carried it. The worker
  leaves its loop by \<open>break\<close> and sets the flag again (\<open>worker_restores_non_blocking\<close>
  below).
\<close>

theorem sync_error_leaves_descriptor_blocking:
  assumes run: "cpp_Read info s = Some (Threw (Error m), s')"
    and loop: "read_calls (trace s') \<noteq> read_calls (trace s)"
    and nb: "int (flags s) AND O_NONBLOCK \<noteq> 0"
  shows "int (flags s') AND O_NONBLOCK = 0 \<and>
         nonblock_sets (trace s') = nonblock_sets (trace s)"
  using run
proof (cases rule: cpp_Read_cases)
  case rejected
  with loop show ?thesis by simp
next
  case exited
  then show ?thesis by simp
next
  case (looped f was opts s2 m' d count s3 ok s4)
  from looped(6) have "s' = s3" by (cases m') (auto split: if_splits)
  with cpp_read_loop_os [OF looped(4)] cpp_read_loop_nonblock_sets [OF looped(4)]
    cpp_set_blocking_clears [OF looped(1) nb]
  show ?thesis by simp
qed

theorem sync_error_leaves_descriptor_blocking_witness:
  "\<exists>s'. cpp_Read [tcp_socket 7, JNumber (Fin 10)]
           (os_example ''123456789'' [Deliver 9, Deliver 1] [])
         = Some (Threw (Error ''reached end of stream (read 9 bytes)''), s') \<and>
        flags (os_example ''123456789'' [Deliver 9, Deliver 1] []) = 2050 \<and> flags s' = 2 \<and>
        nonblock_sets (trace s') = 0"
proof -
  let ?s = "os_example ''123456789'' [Deliver 9, Deliver 1] []"
  obtain s' where r: "cpp_Read [tcp_socket 7, JNumber (Fin 10)] ?s
         = Some (Threw (Error ''reached end of stream (read 9 bytes)''), s')"
    and t: "read_calls (trace s') = [(10, 9), (1, 0)]" and f: "flags s' = 2"
    by (simp add: eval_defs cpp_eval_defs cpp_read_loop.simps dec.simps)
  have l: "read_calls (trace s') \<noteq> read_calls (trace ?s)" unfolding t by (simp add: os_example_def)
  have nb: "int (flags ?s) AND O_NONBLOCK \<noteq> 0" by (simp add: os_example_def O_NONBLOCK_def)
  from sync_error_leaves_descriptor_blocking [OF r l nb]
  have "nonblock_sets (trace s') = 0" by (simp add: os_example_def)
  with r f show ?thesis by (auto simp: os_example_def)
qed





text \<open>
  C6. The specification, like the message of the \<open>TypeError\<close>, has every size that is
  not a positive integer rejected, 2.5 for one. Both addons convert the number to an
  \<open>int\<close> before they test it: a call with a size \<open>x \<ge> 0\<close> does exactly what the call
  with the size cut to its integer part does, so 2.5 is a request for 2 bytes.
\<close>

theorem fractional_size_is_truncated:
  assumes "0 \<le> x"
  shows "Read [socket, JNumber (Fin x), callback] u s
           = Read [socket, JNumber (Fin (of_int \<lfloor>x\<rfloor>)), callback] u s \<and>
         cpp_Read [socket, JNumber (Fin x), callback] s
           = cpp_Read [socket, JNumber (Fin (of_int \<lfloor>x\<rfloor>)), callback] s"
proof -
  have args: "arg [socket, v, callback] 0 = socket" "arg [socket, v, callback] 1 = v"
    "arg [socket, v, callback] 2 = callback" for v
    by (simp_all add: arg_def)
  have t: "To_int (JNumber (Fin (of_int \<lfloor>x\<rfloor>))) = To_int (JNumber (Fin x))"
    using assms by (simp add: ToInt32_floor)
  show ?thesis
    by (simp only: Read_def cpp_Read_def args t IsNumber.simps list.size)
qed

theorem fractional_size_is_truncated_witness:
  "\<exists>s' s''.
     Read [tcp_socket 7, JNumber (Fin (5 / 2)), JFunction] False
        (os_example ''ABCDEFGHIJKLMNOPQRSTUVWXYZ'' [Deliver 26] [])
       = Some (Returned JUndefined, [[JNull, JBuffer (map Some ''AB'')]], s') \<and>
     cpp_Read [tcp_socket 7, JNumber (Fin (5 / 2)), JFunction]
        (os_example ''ABCDEFGHIJKLMNOPQRSTUVWXYZ'' [Deliver 26] [])
       = Some (Returned (JBuffer (map Some ''AB'')), s'')"
proof -
  let ?s = "os_example ''ABCDEFGHIJKLMNOPQRSTUVWXYZ'' [Deliver 26] []"
  have f: "\<lfloor>5 / 2 :: rat\<rfloor> = 2" by (simp add: floor_eq_iff)
  obtain s' where r: "Read [tcp_socket 7, JNumber (Fin 2), JFunction] False ?s
       = Some (Returned JUndefined, [[JNull, JBuffer (map Some ''AB'')]], s')"
    by (simp add: eval_defs read_loop.simps)
  obtain s'' where c: "cpp_Read [tcp_socket 7, JNumber (Fin 2), JFunction] ?s
       = Some (Returned (JBuffer (map Some ''AB'')), s'')"
    by (simp add: eval_defs cpp_eval_defs cpp_read_loop.simps)
  from fractional_size_is_truncated [of "5 / 2" "tcp_socket 7" JFunction False ?s] r c
  show ?thesis unfolding f by simp
qed





text \<open>
  C9. Once the arguments are accepted, a call that returns has called the callback
  exactly once, with \<open>null\<close> and a buffer of the size asked for, or with one error
  carrying a message and exactly one of the flags \<open>badStream\<close>, \<open>endOfFile\<close>,
  \<open>systemError\<close>; and the call does return as soon as the descriptor answers as many
  \<open>read\<close> calls as bytes were asked for with something else than \<open>EINTR\<close>.
\<close>

theorem callback_invoked_exactly_once:
  assumes "length info = 3" and "LooksLikeASocket (arg info 0)" and "IsNumber (arg info 1)"
    and "0 < To_int (arg info 1)" and "IsFunction (arg info 2)"
  shows "(nat (To_int (arg info 1)) \<le> answers (reads s) \<longrightarrow> Read info u s \<noteq> None) \<and>
    (\<forall>c calls s'. Read info u s = Some (c, calls, s') \<longrightarrow>
       c = Returned JUndefined \<and>
       (\<exists>call. calls = [call] \<and> terminal_outcome (nat (To_int (arg info 1))) call))"
proof (intro conjI impI allI)
  let ?N = "nat (To_int (arg info 1))"
  let ?w = "PosixReadWorker (GetFdFromSocket (arg info 0)) ?N u"
  assume "?N \<le> answers (reads s)"
  with assms(4) have "max 1 (size ?w) \<le> answers (reads s)" by simp
  from Execute_returns [OF this] obtain w' s' where "Execute ?w s = Some (w', s')" by auto
  then show "Read info u s \<noteq> None"
    using assms by (simp add: Read_def Let_def AsyncQueueWorker_def)
next
  fix c calls s'
  let ?N = "nat (To_int (arg info 1))"
  assume run: "Read info u s = Some (c, calls, s')"
  then have "c = Returned JUndefined \<and> (\<exists>call. calls = [call] \<and> terminal_outcome ?N call)"
  proof (cases rule: Read_cases)
    case (threw e)
    with run assms show ?thesis by (auto simp: Read_def Let_def split: if_splits option.splits)
  next
    case (bad_stream m)
    then show ?thesis by (simp add: is_error_outcome_flag)
  next
    case (worker w')
    have "?N < 2 ^ 32" using To_int_less [of "arg info 1"] by simp
    from WorkComplete_terminal [OF worker(8) this] worker(9,10) show ?thesis by simp
  qed
  then show "c = Returned JUndefined"
    "\<exists>call. calls = [call] \<and> terminal_outcome ?N call" by simp_all
qed

theorem callback_invoked_exactly_once_witness:
  "\<exists>s'. Read [tcp_socket 7, JNumber (Fin 3), JFunction] False
           (os_example ''ABCDEFGHIJKLMNOPQRSTUVWXYZ'' [Fail EINTR, Deliver 2, Deliver 5, Deliver 0] [])
         = Some (Returned JUndefined, [[JNull, JBuffer (map Some ''ABC'')]], s')
       \<and> terminal_outcome 3 [JNull, JBuffer (map Some ''ABC'')]
       \<and> 3 \<le> answers [Fail EINTR, Deliver 2, Deliver 5, Deliver 0]"
proof -
  let ?info = "[tcp_socket 7, JNumber (Fin 3), JFunction]"
  let ?s = "os_example ''ABCDEFGHIJKLMNOPQRSTUVWXYZ'' [Fail EINTR, Deliver 2, Deliver 5, Deliver 0] []"
  have v: "length ?info = 3" "LooksLikeASocket (arg ?info 0)" "IsNumber (arg ?info 1)"
    "0 < To_int (arg ?info 1)" "IsFunction (arg ?info 2)"
    by (simp_all add: arg_def tcp_socket_def LooksLikeASocket_def ToInt32_def)
  have n: "nat (To_int (arg ?info 1)) = 3" by (simp add: arg_def ToInt32_def)
  have a: "3 \<le> answers [Fail EINTR, Deliver 2, Deliver 5, Deliver 0]"
    by (simp add: answers_def EINTR_def)
  obtain s' where r: "Read ?info False ?s
      = Some (Returned JUndefined, [[JNull, JBuffer (map Some ''ABC'')]], s')"
    by (simp add: eval_defs read_loop.simps)
  from callback_invoked_exactly_once [OF v, where u = False and s = ?s, THEN conjunct2, rule_format, OF r]
  have "terminal_outcome 3 [JNull, JBuffer (map Some ''ABC'')]" unfolding n by simp
  with r a show ?thesis by blast
qed

text \<open>
  C10. When the loop has recorded an error and setting the descriptor non-blocking
  again fails too, the callback gets the error of the loop alone (\<open>read failed\<close> or
  \<open>reached end of stream\<close>), and nothing is freed a second time.
\<close>

theorem restore_failure_after_loop_error_is_dropped:
  assumes "sys_malloc n s = (Some blk, s1)"
    and "SetBlocking (PosixReadWorker f n u\<lparr>data := blk\<rparr>) s1 = (0, w2, s2)"
    and "read_loop w2 0 s2 = Some (w3, count, s3)" and "errmsg w3 \<noteq> None"
    and "UnsetBlocking w3 s3 = (r, s4)" and "r \<noteq> 0"
  shows "AsyncQueueWorker (PosixReadWorker f n u) s =
           Some ([[ErrorWithProperty (the (error_prop w3)) (the (errmsg w3))]], s4) \<and>
         ((error_prop w3 = Some ''systemError'' \<and>
           errmsg w3 = Some (snprintf256 (''read failed: '' @ strerror s (errno s3)))) \<or>
          (error_prop w3 = Some ''endOfFile'' \<and>
           errmsg w3 =
             Some (snprintf256 (''reached end of stream (read '' @ dec count @ '' bytes)''))))"
proof -
  from SetBlocking_worker [OF assms(2)] have w2: "errmsg w2 = None" by simp
  from sys_malloc_io [OF assms(1)] SetBlocking_io [OF assms(2)]
  have "strerror s2 = strerror s" by (simp add: same_io_def)
  with read_loop_err [OF assms(3) w2 assms(4)]
  have "(error_prop w3 = Some ''systemError'' \<and>
           errmsg w3 = Some (snprintf256 (''read failed: '' @ strerror s (errno s3)))) \<or>
          (error_prop w3 = Some ''endOfFile'' \<and>
           errmsg w3 =
             Some (snprintf256 (''reached end of stream (read '' @ dec count @ '' bytes)'')))"
    by auto
  moreover from AsyncQueueWorker_looped [OF assms(1-3,5)] assms(4)
  have "AsyncQueueWorker (PosixReadWorker f n u) s =
           Some ([[ErrorWithProperty (the (error_prop w3)) (the (errmsg w3))]], s4)"
    by (auto simp: WorkComplete_def HandleErrorCallback_def)
  ultimately show ?thesis by simp
qed

theorem restore_failure_after_loop_error_is_dropped_witness:
  "map_option fst
     (AsyncQueueWorker (PosixReadWorker 7 10 False)
        (os_example ''123456789'' [Deliver 9, Deliver 1] [None, None, Some 9]))
   = Some [[ErrorWithProperty ''endOfFile'' ''reached end of stream (read 9 bytes)'']]"
proof -
  let ?s = "os_example ''123456789'' [Deliver 9, Deliver 1] [None, None, Some 9]"
  let ?w = "PosixReadWorker 7 10 False"
  let ?blk = "the (fst (sys_malloc 10 ?s))" and ?s1 = "snd (sys_malloc 10 ?s)"
  let ?sb = "SetBlocking (?w\<lparr>data := ?blk\<rparr>) ?s1"
  let ?w2 = "fst (snd ?sb)" and ?s2 = "snd (snd ?sb)"
  let ?l = "the (read_loop ?w2 0 ?s2)"
  let ?w3 = "fst ?l" and ?s3 = "snd (snd ?l)"
  let ?r = "fst (UnsetBlocking ?w3 ?s3)" and ?s4 = "snd (UnsetBlocking ?w3 ?s3)"
  have m: "sys_malloc 10 ?s = (Some ?blk, ?s1)" by (simp add: eval_defs)
  have sb: "?sb = (0, ?w2, ?s2)" by (simp add: eval_defs)
  have l: "read_loop ?w2 0 ?s2 = Some (?w3, 9, ?s3)" by (simp add: eval_defs read_loop.simps)
  have ub: "UnsetBlocking ?w3 ?s3 = (?r, ?s4)" by simp
  have r: "?r \<noteq> 0" by (simp add: eval_defs read_loop.simps)
  have e: "errmsg ?w3 \<noteq> None" by (simp add: eval_defs read_loop.simps)
  have p: "the (error_prop ?w3) = ''endOfFile''"
    "the (errmsg ?w3) = ''reached end of stream (read 9 bytes)''"
    by (simp_all add: eval_defs read_loop.simps dec.simps)
  from restore_failure_after_loop_error_is_dropped [OF m sb l e ub r, THEN conjunct1]
  show ?thesis unfolding p by simp
qed

section \<open>More on the worker and the two loops\<close>

text \<open>
  In the worker, when \<open>malloc\<close> has succeeded, the buffer is freed exactly once if
  the request ends with an error and not at all if it ends with success, in which case
  the callback is given the buffer.
\<close>

theorem worker_frees_buffer_iff_failure:
  assumes "Execute (PosixReadWorker f n u) s = Some (w', s')" and "malloc_fails s = None"
  shows "frees (trace s') = frees (trace s) + (if errmsg w' = None then 0 else 1) \<and>
         WorkComplete w' =
           (if errmsg w' = None then [JNull, JBuffer (take (n mod 2 ^ 32) (data w'))]
            else [ErrorWithProperty (the (error_prop w')) (the (errmsg w'))])"
proof -
  have "size w' = n"
  proof (cases "errmsg w' = None")
    case True
    from Execute_success [OF assms(1) _ True] show ?thesis by simp
  next
    case False
    from assms(1) show ?thesis
    proof (cases rule: Execute_cases)
      case (looped blk s1 w2 s2 w3 count s3 r s4)
      from SetBlocking_worker [OF looped(2)] read_loop_worker [OF looped(3)] looped(5)
      show ?thesis by auto
    next
      case (not_blocking blk s1 r w2 s2)
      from SetBlocking_worker [OF not_blocking(2)] not_blocking(4) show ?thesis by simp
    qed auto
  qed
  with Execute_frees [OF assms(1) _ assms(2)] show ?thesis
    by (simp add: WorkComplete_def HandleOKCallback_def HandleErrorCallback_def)
qed

theorem worker_frees_buffer_iff_failure_witness:
  "(\<exists>w' s'. Execute (PosixReadWorker 7 10 False)
              (os_example ''123456789'' [Deliver 9, Deliver 1] []) = Some (w', s') \<and>
      errmsg w' \<noteq> None \<and> frees (trace s') = 1) \<and>
   (\<exists>w' s'. Execute (PosixReadWorker 7 10 False)
              (os_example ''ABCDEFGHIJKLMNOPQRSTUVWXYZ'' [Deliver 26] []) = Some (w', s') \<and>
      errmsg w' = None \<and> frees (trace s') = 0)"
proof -
  let ?s = "os_example ''123456789'' [Deliver 9, Deliver 1] []"
  let ?t = "os_example ''ABCDEFGHIJKLMNOPQRSTUVWXYZ'' [Deliver 26] []"
  obtain w' s' where r: "Execute (PosixReadWorker 7 10 False) ?s = Some (w', s')"
    and e: "errmsg w' \<noteq> None"
    by (simp add: eval_defs read_loop.simps)
  obtain w'' s'' where r': "Execute (PosixReadWorker 7 10 False) ?t = Some (w'', s'')"
    and e': "errmsg w'' = None"
    by (simp add: eval_defs read_loop.simps)
  have m: "malloc_fails ?s = None" "malloc_fails ?t = None" by (simp_all add: os_example_def)
  from worker_frees_buffer_iff_failure [OF r m(1), THEN conjunct1] e
  have 1: "frees (trace s') = 1" by (simp add: os_example_def)
  from worker_frees_buffer_iff_failure [OF r' m(2), THEN conjunct1] e'
  have 2: "frees (trace s'') = 0" by (simp add: os_example_def)
  from r e 1 r' e' 2 show ?thesis by blast
qed

text \<open>
  In the worker, on a descriptor that was non-blocking and when no \<open>fcntl\<close> call
  fails, \<open>O_NONBLOCK\<close> is set again by exactly one \<open>F_SETFL\<close> call however the loop
  ends, with success or with an error.
\<close>

theorem worker_restores_non_blocking:
  assumes run: "Execute w s = Some (w', s')" and "malloc_fails s = None"
    and "fcntls s = []" and "int (flags s) AND O_NONBLOCK \<noteq> 0"
  shows "int (flags s') AND O_NONBLOCK \<noteq> 0 \<and>
         nonblock_sets (trace s') = nonblock_sets (trace s) + 1"
  using run
proof (cases rule: Execute_cases)
  case (no_memory s1)
  with assms(2) show ?thesis by (simp add: sys_malloc_def)
next
  case (not_blocking blk s1 r w2 s2)
  from not_blocking(1) assms(2-4)
  have s1: "fcntls s1 = []" "int (flags s1) AND O_NONBLOCK \<noteq> 0"
    by (auto simp: sys_malloc_def)
  from SetBlocking_no_fault [OF not_blocking(2) s1] not_blocking(3) show ?thesis by simp
next
  case (looped blk s1 w2 s2 w3 count s3 r s4)
  from looped(1) assms(2-4)
  have s1: "fcntls s1 = []" "int (flags s1) AND O_NONBLOCK \<noteq> 0"
    "nonblock_sets (trace s1) = nonblock_sets (trace s)"
    by (auto simp: sys_malloc_def)
  from SetBlocking_no_fault [OF looped(2) s1(1,2)] s1(3)
  have s2: "fd_was_non_blocking w2" "fcntls s2 = []"
    "nonblock_sets (trace s2) = nonblock_sets (trace s)" by simp_all
  from read_loop_os [OF looped(3)] read_loop_worker [OF looped(3)]
    read_loop_nonblock_sets [OF looped(3)] s2
  have s3: "fcntls s3 = []" "fd_was_non_blocking w3"
    "nonblock_sets (trace s3) = nonblock_sets (trace s)" by simp_all
  from UnsetBlocking_no_fault [OF looped(4) s3(1,2)] s3(3) looped(5) show ?thesis by auto
qed

theorem worker_restores_non_blocking_witness:
  "\<exists>w' s'. Execute (PosixReadWorker 7 10 False)
              (os_example ''123456789'' [Deliver 9, Deliver 1] []) = Some (w', s') \<and>
      error_prop w' = Some ''endOfFile'' \<and> flags s' = 2050 \<and>
      nonblock_sets (trace s') = 1"
proof -
  let ?s = "os_example ''123456789'' [Deliver 9, Deliver 1] []"
  obtain w' s' where r: "Execute (PosixReadWorker 7 10 False) ?s = Some (w', s')"
    and e: "error_prop w' = Some ''endOfFile''" and f: "flags s' = 2050"
    by (simp add: eval_defs read_loop.simps)
  have "malloc_fails ?s = None" "fcntls ?s = []" "int (flags ?s) AND O_NONBLOCK \<noteq> 0"
    by (simp_all add: os_example_def O_NONBLOCK_def)
  from worker_restores_non_blocking [OF r this] have "nonblock_sets (trace s') = 1"
    by (simp add: os_example_def)
  with r e f show ?thesis by blast
qed

text \<open>
  A \<open>read\<close> that fails with \<open>EINTR\<close> while bytes are missing changes nothing but
  the trace, in both loops: the loop goes on as from the next call. The same holds for
  \<open>EAGAIN\<close> in the loop of the synchronous addon.
\<close>

theorem interrupted_read_is_retried:
  assumes "reads s = Fail e # es" and "count < n"
  shows "(e = EINTR \<longrightarrow> size w = n \<longrightarrow>
            read_loop w count s =
            read_loop w count
              (s\<lparr>reads := es, errno := e, trace := trace s @ [SysRead (n - count) (- 1)]\<rparr>)) \<and>
         (e = EINTR \<or> e = EAGAIN \<longrightarrow>
            cpp_read_loop f n d count s =
            cpp_read_loop f n d count
              (s\<lparr>reads := es, errno := e, trace := trace s @ [SysRead (n - count) (- 1)]\<rparr>))"
proof (intro conjI impI)
  assume "e = EINTR" "size w = n"
  with assms show "read_loop w count s =
      read_loop w count
        (s\<lparr>reads := es, errno := e, trace := trace s @ [SysRead (n - count) (- 1)]\<rparr>)"
    by (subst read_loop.simps) (simp add: sys_read_def)
next
  assume "e = EINTR \<or> e = EAGAIN"
  with assms show "cpp_read_loop f n d count s =
      cpp_read_loop f n d count
        (s\<lparr>reads := es, errno := e, trace := trace s @ [SysRead (n - count) (- 1)]\<rparr>)"
    by (subst cpp_read_loop.simps) (auto simp: sys_read_def)
qed

theorem interrupted_read_is_retried_witness:
  "read_loop (PosixReadWorker 7 10 True) 0
      (os_example ''ABCDEFGHIJKLMNOPQRSTUVWXYZ'' [Fail EINTR, Deliver 26] [])
    = read_loop (PosixReadWorker 7 10 True) 0
        (os_example ''ABCDEFGHIJKLMNOPQRSTUVWXYZ'' [Fail EINTR, Deliver 26] []
           \<lparr>reads := [Deliver 26], errno := EINTR, trace := [SysRead 10 (- 1)]\<rparr>) \<and>
   cpp_read_loop 7 10 (replicate 10 None) 0
      (os_example ''ABCDEFGHIJKLMNOPQRSTUVWXYZ'' [Fail EAGAIN, Deliver 26] [])
    = cpp_read_loop 7 10 (replicate 10 None) 0
        (os_example ''ABCDEFGHIJKLMNOPQRSTUVWXYZ'' [Fail EAGAIN, Deliver 26] []
           \<lparr>reads := [Deliver 26], errno := EAGAIN, trace := [SysRead 10 (- 1)]\<rparr>)"
proof -
  let ?s = "os_example ''ABCDEFGHIJKLMNOPQRSTUVWXYZ'' [Fail EINTR, Deliver 26] []"
  let ?t = "os_example ''ABCDEFGHIJKLMNOPQRSTUVWXYZ'' [Fail EAGAIN, Deliver 26] []"
  have s: "reads ?s = Fail EINTR # [Deliver 26]" and t: "reads ?t = Fail EAGAIN # [Deliver 26]"
    by (simp_all add: os_example_def)
  have c: "(0::nat) < 10" by simp
  from interrupted_read_is_retried [OF s c, where w = "PosixReadWorker 7 10 True",
      THEN conjunct1, rule_format]
    interrupted_read_is_retried [OF t c, where f = 7 and d = "replicate 10 None",
      THEN conjunct2, rule_format]
  show ?thesis by (simp add: os_example_def)
qed

text \<open>
  A call with three arguments whose first looks like a socket throws the
  \<open>TypeError\<close> \<open>second argument should be a positive integer\<close>, calls nothing back and
  makes no system call, when the second argument is not a number, is not-a-number, or
  is a number from \<open>-2^31\<close> up to, but not including, 1.
\<close>

theorem bad_size_is_rejected:
  assumes "length info = 3" and "LooksLikeASocket (arg info 0)"
    and "\<not> IsNumber (arg info 1) \<or> arg info 1 = JNumber NaN \<or>
         (\<exists>x. arg info 1 = JNumber (Fin x) \<and> - (2 ^ 31) \<le> x \<and> x < 1)"
  shows "Read info u s =
     Some (Threw (TypeError ''second argument should be a positive integer''), [], s)"
proof -
  from assms(3) have "\<not> IsNumber (arg info 1) \<or> To_int (arg info 1) \<le> 0"
    by (auto simp: ToInt32_not_positive)
  with assms(1,2) show ?thesis by (simp add: Read_def)
qed

theorem bad_size_is_rejected_witness:
  "Read [tcp_socket 7, JString ''test'', JFunction] False (os_example ''ABC'' [Deliver 3] [])
     = Some (Threw (TypeError ''second argument should be a positive integer''), [],
             os_example ''ABC'' [Deliver 3] []) \<and>
   Read [tcp_socket 7, JNumber (Fin (- 2)), JFunction] False (os_example ''ABC'' [Deliver 3] [])
     = Some (Threw (TypeError ''second argument should be a positive integer''), [],
             os_example ''ABC'' [Deliver 3] []) \<and>
   Read [tcp_socket 7, JNumber (Fin 0), JFunction] False (os_example ''ABC'' [Deliver 3] [])
     = Some (Threw (TypeError ''second argument should be a positive integer''), [],
             os_example ''ABC'' [Deliver 3] []) \<and>
   Read [tcp_socket 7, JNumber (Fin (1 / 2)), JFunction] False (os_example ''ABC'' [Deliver 3] [])
     = Some (Threw (TypeError ''second argument should be a positive integer''), [],
             os_example ''ABC'' [Deliver 3] [])"
proof -
  have s: "LooksLikeASocket (arg [tcp_socket 7, v, JFunction] 0)" for v
    by (simp add: arg_def tcp_socket_def LooksLikeASocket_def)
  have l: "length [tcp_socket 7, v, JFunction] = 3" for v by simp
  have a: "\<not> IsNumber (arg [tcp_socket 7, JString ''test'', JFunction] 1) \<or>
      arg [tcp_socket 7, JString ''test'', JFunction] 1 = JNumber NaN \<or>
      (\<exists>x. arg [tcp_socket 7, JString ''test'', JFunction] 1 = JNumber (Fin x) \<and>
           - (2 ^ 31) \<le> x \<and> x < 1)"
    by (simp add: arg_def)
  have b: "\<not> IsNumber (arg [tcp_socket 7, JNumber (Fin x), JFunction] 1) \<or>
      arg [tcp_socket 7, JNumber (Fin x), JFunction] 1 = JNumber NaN \<or>
      (\<exists>y. arg [tcp_socket 7, JNumber (Fin x), JFunction] 1 = JNumber (Fin y) \<and>
           - (2 ^ 31) \<le> y \<and> y < 1)"
    if "- (2 ^ 31) \<le> x" "x < 1" for x
    using that by (simp add: arg_def)
  from bad_size_is_rejected [OF l s a]
    bad_size_is_rejected [OF l s b [of "- 2"]]
    bad_size_is_rejected [OF l s b [of 0]]
    bad_size_is_rejected [OF l s b [of "1 / 2"]]
  show ?thesis by simp
qed

end
